theory Spec2Isabelle
  imports Main "HOL-Library.Word"
begin

section \<open>Data of main.go\<close>

text \<open>
  Go's \<open>int64\<close> is a 64-bit word: \<open>+\<close> wraps as \<open>atomic.AddInt64\<close> and \<open>count++\<close> do,
  and the comparisons of the source are the signed ones (\<open><s\<close>, \<open>\<le>s\<close>).
  A \<open>time.Time\<close> is an instant on a line (whole nanoseconds); \<open>t.After(u)\<close> compares
  instants.
\<close>

type_synonym int64 = "64 word"
type_synonym time = int

definition After :: "time \<Rightarrow> time \<Rightarrow> bool" where
  "After t u = (u < t)"

text \<open>\<open>minio.ObjectInfo\<close>, the fields main.go reads. \<open>Err\<close> is \<open>None\<close> for Go's nil.\<close>

record ObjectInfo =
  Key :: string
  Size :: int64
  LastModified :: time
  Err :: "string option"

text \<open>
  \<open>Config.Cleanup\<close>, the fields the pipeline reads. \<open>Workers\<close> is a Go \<open>int\<close>, 64 bits wide
  on the usual platforms, so that \<open>Workers * 2\<close> wraps as it does there.
\<close>

record Cleanup =
  MaxAge :: int64
  MinSize :: int64
  DryRun :: bool
  Workers :: int64

text \<open>
  What one run is given from outside: the configuration, \<open>thresholdTime\<close> (computed once
  from the clock at line 104), what the two \<open>ListObjects\<close> calls stream (lines 181 and 200;
  the bucket may change between them), and the outcome of \<open>RemoveObject\<close> for a key
  (\<open>None\<close> for a nil error).
\<close>

record env =
  cfg :: Cleanup
  thresholdTime :: time
  listing1 :: "ObjectInfo list"
  listing2 :: "ObjectInfo list"
  RemoveObject :: "string \<Rightarrow> string option"

text \<open>
  The lines written with \<open>log.Printf\<close>, by the values they are formatted from (the
  formatting itself, megabytes and percentages in floating point, is left out).
\<close>

datatype logline =
    ListError string
  | TotalLine int64
  | Candidate string int64 time
  | DeleteFailed string string
  | Deleted string
  | Progress int64 int64 int64 int64
  | Summary int64 int64 int64 int64

text \<open>
  The atomic actions of the goroutines: a log line, the storage call
  \<open>minioClient.RemoveObject\<close>, the atomic counter updates, and the channel operations.
\<close>

datatype action =
    Log logline
  | Remove string
  | AddProcessed
  | AddDeleted
  | AddDeletedSize int64
  | StoreTotal int64
  | Send ObjectInfo
  | Close
  | SignalDone

section \<open>The goroutines\<close>

subsection \<open>Worker (lines 146-177)\<close>

text \<open>
  The body of \<open>for obj := range fileChan\<close>: the actions one iteration performs for \<open>obj\<close>,
  in order.
\<close>

definition worker_body :: "env \<Rightarrow> ObjectInfo \<Rightarrow> action list" where
  "worker_body e obj =
     (if Size obj <s MinSize (cfg e) then [AddProcessed]
      else if After (LastModified obj) (thresholdTime e) then [AddProcessed]
      else Log (Candidate (Key obj) (Size obj) (LastModified obj)) #
           (if \<not> DryRun (cfg e) then
              Remove (Key obj) #
              (case RemoveObject e (Key obj) of
                 Some err \<Rightarrow> [Log (DeleteFailed (Key obj) err)]
               | None \<Rightarrow> [Log (Deleted (Key obj)), AddDeleted, AddDeletedSize (Size obj)])
            else []) @
           [AddProcessed])"

text \<open>The two guards of the body, as the filter they form.\<close>

definition eligible :: "env \<Rightarrow> ObjectInfo \<Rightarrow> bool" where
  "eligible e obj =
     (if Size obj <s MinSize (cfg e) then False
      else if After (LastModified obj) (thresholdTime e) then False
      else True)"

subsection \<open>Enumerator (lines 186-212)\<close>

text \<open>The counting loop of lines 189-195: the lines it logs and the final \<open>count\<close>.\<close>

fun pass1 :: "ObjectInfo list \<Rightarrow> int64 \<Rightarrow> action list \<times> int64" where
  "pass1 [] count = ([], count)"
| "pass1 (obj # rest) count =
     (case Err obj of
        Some err \<Rightarrow> (case pass1 rest count of (acts, c) \<Rightarrow> (Log (ListError err) # acts, c))
      | None \<Rightarrow> pass1 rest (count + 1))"

text \<open>The feeding loop of lines 203-209.\<close>

fun pass2 :: "ObjectInfo list \<Rightarrow> action list" where
  "pass2 [] = []"
| "pass2 (obj # rest) =
     (case Err obj of
        Some err \<Rightarrow> Log (ListError err) # pass2 rest
      | None \<Rightarrow> Send obj # pass2 rest)"

definition enumerator :: "env \<Rightarrow> action list" where
  "enumerator e =
     (case pass1 (listing1 e) 0 of
        (acts, count) \<Rightarrow>
          acts @ [StoreTotal count, Log (TotalLine count)] @ pass2 (listing2 e) @
          [Close, SignalDone])"

subsection \<open>Progress reporter (lines 123-142)\<close>

text \<open>What one tick does with the four values it has loaded.\<close>

definition report :: "int64 \<Rightarrow> int64 \<Rightarrow> int64 \<Rightarrow> int64 \<Rightarrow> action list" where
  "report processed tot deleted sz =
     (if 0 <s tot then [Log (Progress processed tot deleted sz)] else [])"

definition report_break :: "int64 \<Rightarrow> int64 \<Rightarrow> bool" where
  "report_break processed tot = (tot \<le>s processed \<and> 0 <s tot)"

section \<open>The running program\<close>

datatype goroutine = Running "action list" | Exited

datatype main_pc =
    MWait
  | MLoad0
  | MLoad1 int64
  | MLoad2 int64 int64
  | MLoad3 int64 int64 int64
  | MExit

datatype reporter_pc =
    RSleep
  | RLoad1 int64
  | RLoad2 int64 int64
  | RLoad3 int64 int64 int64
  | RExit

text \<open>
  The shared variables of \<open>main\<close> (the four counters, the two channels), where each
  goroutine stands, and what has been written to the log and asked of the storage so far.
  A worker at \<open>Running []\<close> is at the head of its loop, receiving from \<open>fileChan\<close>;
  the enumerator holds the actions it still has to perform.
\<close>

record state =
  totalFiles :: int64
  processedFiles :: int64
  deletedFiles :: int64
  deletedSize :: int64
  fileChan :: "ObjectInfo list"
  fileChanClosed :: bool
  doneChan :: bool
  mainG :: main_pc
  reporterG :: reporter_pc
  workerG :: "goroutine list"
  enumeratorG :: "action list"
  emitted :: "action list"
  panicked :: bool

datatype tid = Main | Reporter | Enumerator | Worker nat

definition capacity :: "env \<Rightarrow> nat" where
  "capacity e = nat (sint (Workers (cfg e) * 2))"

text \<open>
  One atomic action on the shared state; \<open>None\<close> when the goroutine is blocked.
  A send on \<open>fileChan\<close> blocks while the buffer is full (no receiver can be waiting on a
  channel of capacity 0 here: that is the run without workers). Sending on or closing a
  closed channel panics. The send on the unbuffered \<open>doneChan\<close> hands its value to
  \<open>main\<close>, which waits for it from the start and moves on once it is there; the
  enumerator does nothing after it.
\<close>

fun perform :: "env \<Rightarrow> action \<Rightarrow> state \<Rightarrow> state option" where
  "perform e (Log l) s = Some (s\<lparr>emitted := emitted s @ [Log l]\<rparr>)"
| "perform e (Remove k) s = Some (s\<lparr>emitted := emitted s @ [Remove k]\<rparr>)"
| "perform e AddProcessed s = Some (s\<lparr>processedFiles := processedFiles s + 1\<rparr>)"
| "perform e AddDeleted s = Some (s\<lparr>deletedFiles := deletedFiles s + 1\<rparr>)"
| "perform e (AddDeletedSize n) s = Some (s\<lparr>deletedSize := deletedSize s + n\<rparr>)"
| "perform e (StoreTotal n) s = Some (s\<lparr>totalFiles := n\<rparr>)"
| "perform e (Send obj) s =
     (if fileChanClosed s then Some (s\<lparr>panicked := True\<rparr>)
      else if length (fileChan s) < capacity e then Some (s\<lparr>fileChan := fileChan s @ [obj]\<rparr>)
      else None)"
| "perform e Close s =
     (if fileChanClosed s then Some (s\<lparr>panicked := True\<rparr>)
      else Some (s\<lparr>fileChanClosed := True\<rparr>))"
| "perform e SignalDone s = Some (s\<lparr>doneChan := True\<rparr>)"

text \<open>Main from line 215 on: receive from \<open>doneChan\<close>, load the four counters, print.\<close>

definition step_main :: "state \<Rightarrow> state option" where
  "step_main s =
     (case mainG s of
        MWait \<Rightarrow> if doneChan s then Some (s\<lparr>mainG := MLoad0\<rparr>) else None
      | MLoad0 \<Rightarrow> Some (s\<lparr>mainG := MLoad1 (totalFiles s)\<rparr>)
      | MLoad1 t \<Rightarrow> Some (s\<lparr>mainG := MLoad2 t (processedFiles s)\<rparr>)
      | MLoad2 t p \<Rightarrow> Some (s\<lparr>mainG := MLoad3 t p (deletedFiles s)\<rparr>)
      | MLoad3 t p d \<Rightarrow>
          Some (s\<lparr>emitted := emitted s @ [Log (Summary t p d (deletedSize s))], mainG := MExit\<rparr>)
      | MExit \<Rightarrow> None)"

definition step_reporter :: "state \<Rightarrow> state option" where
  "step_reporter s =
     (case reporterG s of
        RSleep \<Rightarrow> Some (s\<lparr>reporterG := RLoad1 (processedFiles s)\<rparr>)
      | RLoad1 p \<Rightarrow> Some (s\<lparr>reporterG := RLoad2 p (totalFiles s)\<rparr>)
      | RLoad2 p t \<Rightarrow> Some (s\<lparr>reporterG := RLoad3 p t (deletedFiles s)\<rparr>)
      | RLoad3 p t d \<Rightarrow>
          Some (s\<lparr>emitted := emitted s @ report p t d (deletedSize s),
                  reporterG := (if report_break p t then RExit else RSleep)\<rparr>)
      | RExit \<Rightarrow> None)"

definition step_enumerator :: "env \<Rightarrow> state \<Rightarrow> state option" where
  "step_enumerator e s =
     (case enumeratorG s of
        [] \<Rightarrow> None
      | a # rest \<Rightarrow> map_option (\<lambda>s'. s'\<lparr>enumeratorG := rest\<rparr>) (perform e a s))"

definition step_worker :: "env \<Rightarrow> nat \<Rightarrow> state \<Rightarrow> state option" where
  "step_worker e i s =
     (if i < length (workerG s) then
        (case workerG s ! i of
           Exited \<Rightarrow> None
         | Running [] \<Rightarrow>
             (case fileChan s of
                obj # q \<Rightarrow>
                  Some (s\<lparr>fileChan := q,
                          workerG := (workerG s)[i := Running (worker_body e obj)]\<rparr>)
              | [] \<Rightarrow>
                  if fileChanClosed s then Some (s\<lparr>workerG := (workerG s)[i := Exited]\<rparr>)
                  else None)
         | Running (a # rest) \<Rightarrow>
             map_option (\<lambda>s'. s'\<lparr>workerG := (workerG s)[i := Running rest]\<rparr>) (perform e a s))
      else None)"

text \<open>
  One step of goroutine \<open>t\<close>. Nothing runs once \<open>main\<close> has returned or the process has
  panicked.
\<close>

definition alive :: "state \<Rightarrow> bool" where
  "alive s = (mainG s \<noteq> MExit \<and> \<not> panicked s)"

definition step :: "env \<Rightarrow> tid \<Rightarrow> state \<Rightarrow> state option" where
  "step e t s =
     (if \<not> alive s then None
      else case t of
        Main \<Rightarrow> step_main s
      | Reporter \<Rightarrow> step_reporter s
      | Enumerator \<Rightarrow> step_enumerator e s
      | Worker i \<Rightarrow> step_worker e i s)"

text \<open>A schedule names the goroutine to run next; one that cannot move is passed over.\<close>

fun exec :: "env \<Rightarrow> tid list \<Rightarrow> state \<Rightarrow> state" where
  "exec e [] s = s"
| "exec e (t # ts) s = exec e ts (case step e t s of None \<Rightarrow> s | Some s' \<Rightarrow> s')"

definition init :: "env \<Rightarrow> state" where
  "init e =
     \<lparr>totalFiles = 0, processedFiles = 0, deletedFiles = 0, deletedSize = 0,
      fileChan = [], fileChanClosed = False, doneChan = False,
      mainG = MWait, reporterG = RSleep,
      workerG = replicate (nat (sint (Workers (cfg e)))) (Running []),
      enumeratorG = enumerator e, emitted = [], panicked = False\<rparr>"

text \<open>\<open>make(chan minio.ObjectInfo, n)\<close> panics for a negative \<open>n\<close>, before any goroutine runs.\<close>

datatype error = MakechanSizeOutOfRange

definition run :: "env \<Rightarrow> tid list \<Rightarrow> error + state" where
  "run e sched =
     (if Workers (cfg e) * 2 <s 0 then Inl MakechanSizeOutOfRange
      else Inr (exec e sched (init e)))"

section \<open>Reachable states\<close>

definition reachable :: "env \<Rightarrow> state \<Rightarrow> bool" where
  "reachable e s = (\<exists>sched. s = exec e sched (init e))"

section \<open>A concrete bucket\<close>

text \<open>
  Three objects: A is large and old, B is small and old, C is large and recent.
  The policy keeps objects under 1 MiB and objects modified after instant 0.
\<close>

definition obj_A :: ObjectInfo where
  "obj_A = \<lparr>Key = ''A'', Size = 10485760, LastModified = - 10, Err = None\<rparr>"

definition obj_B :: ObjectInfo where
  "obj_B = \<lparr>Key = ''B'', Size = 512000, LastModified = - 10, Err = None\<rparr>"

definition obj_C :: ObjectInfo where
  "obj_C = \<lparr>Key = ''C'', Size = 10485760, LastModified = 25, Err = None\<rparr>"

definition scenario :: "int64 \<Rightarrow> bool \<Rightarrow> (string \<Rightarrow> string option) \<Rightarrow> env" where
  "scenario n dry rm =
     \<lparr>cfg = \<lparr>MaxAge = 30, MinSize = 1048576, DryRun = dry, Workers = n\<rparr>,
      thresholdTime = 0,
      listing1 = [obj_A, obj_B, obj_C], listing2 = [obj_A, obj_B, obj_C],
      RemoveObject = rm\<rparr>"

definition removes :: "string \<Rightarrow> string option" where
  "removes k = None"

definition denies :: "string \<Rightarrow> string option" where
  "denies k = Some ''AccessDenied''"

text \<open>
  Two schedules. In \<open>early\<close> the enumerator finishes and \<open>main\<close> prints while worker 0
  still holds its first object; in \<open>patient\<close> worker 0 handles all three objects and
  leaves its loop before \<open>main\<close> moves.
\<close>

definition early :: "tid list" where
  "early =
     [Enumerator, Enumerator, Enumerator, Enumerator, Worker 0, Enumerator, Enumerator,
      Enumerator, Main, Main, Main, Main, Main]"

definition patient :: "tid list" where
  "patient =
     [Enumerator, Enumerator, Enumerator, Enumerator, Worker 0, Enumerator, Enumerator,
      Enumerator,
      Worker 0, Worker 0, Worker 0, Worker 0, Worker 0, Worker 0,
      Worker 0, Worker 0, Worker 0, Worker 0, Worker 0,
      Main, Main, Main, Main, Main]"

section \<open>Notions used in the statements\<close>

text \<open>A listing entry is valid when it carries no error.\<close>

definition valid :: "ObjectInfo \<Rightarrow> bool" where
  "valid obj = (Err obj = None)"

text \<open>The count pass 1 arrives at: the number of valid entries, as an \<open>int64\<close>.\<close>

definition total1 :: "env \<Rightarrow> int64" where
  "total1 e = of_nat (length (filter valid (listing1 e)))"

text \<open>The objects a list of actions still sends to \<open>fileChan\<close>, in order.\<close>

fun sends :: "action list \<Rightarrow> ObjectInfo list" where
  "sends [] = []"
| "sends (Send obj # rest) = obj # sends rest"
| "sends (a # rest) = sends rest"

text \<open>What a worker still has to do in its current iteration.\<close>

fun pend :: "goroutine \<Rightarrow> action list" where
  "pend (Running acts) = acts"
| "pend Exited = []"

text \<open>The objects no worker has received yet: queued, or still to be enqueued.\<close>

definition todo :: "state \<Rightarrow> ObjectInfo list" where
  "todo s = fileChan s @ sends (enumeratorG s)"

text \<open>An object the run deletes: it passes the filter, the run is no dry run, and
  \<open>RemoveObject\<close> succeeds for its key.\<close>

definition deletable :: "env \<Rightarrow> ObjectInfo \<Rightarrow> bool" where
  "deletable e obj = (eligible e obj \<and> \<not> DryRun (cfg e) \<and> RemoveObject e (Key obj) = None)"

subsection \<open>Shapes of the two kinds of goroutine\<close>

text \<open>The actions a worker can have pending.\<close>

fun worker_action :: "action \<Rightarrow> bool" where
  "worker_action (Log (Candidate k n t)) = True"
| "worker_action (Log (DeleteFailed k r)) = True"
| "worker_action (Log (Deleted k)) = True"
| "worker_action (Remove k) = True"
| "worker_action AddProcessed = True"
| "worker_action AddDeleted = True"
| "worker_action (AddDeletedSize n) = True"
| "worker_action a = False"

definition workers_inv :: "state \<Rightarrow> bool" where
  "workers_inv s = (\<forall>w \<in> set (workerG s). list_all worker_action (pend w))"

text \<open>
  The order of the enumerator's remaining actions: the close comes after the store and
  after every send, only the signal follows it, and the signal comes last.
\<close>

fun well :: "action list \<Rightarrow> bool" where
  "well [] = True"
| "well (Log (ListError err) # rest) = (well rest \<and> rest \<noteq> [])"
| "well (Log (TotalLine n) # rest) = (well rest \<and> rest \<noteq> [])"
| "well (StoreTotal n # rest) =
     (well rest \<and> Close \<in> set rest \<and> (\<forall>m. StoreTotal m \<notin> set rest))"
| "well (Send obj # rest) = (well rest \<and> Close \<in> set rest)"
| "well (Close # rest) = (rest = [SignalDone])"
| "well (SignalDone # rest) = (rest = [])"
| "well (a # rest) = False"

text \<open>
  How the shared variables written by the enumerator follow from where it stands.
\<close>

definition enumerator_inv :: "env \<Rightarrow> state \<Rightarrow> bool" where
  "enumerator_inv e s =
     (well (enumeratorG s) \<and>
      (\<forall>n. StoreTotal n \<in> set (enumeratorG s) \<longrightarrow> n = total1 e) \<and>
      totalFiles s = (if \<exists>n. StoreTotal n \<in> set (enumeratorG s) then 0 else total1 e) \<and>
      fileChanClosed s = (Close \<notin> set (enumeratorG s)) \<and>
      doneChan s = (SignalDone \<notin> set (enumeratorG s)) \<and>
      \<not> panicked s)"

definition handled_inv :: "env \<Rightarrow> state \<Rightarrow> bool" where
  "handled_inv e s = (\<exists>handled. filter valid (listing2 e) = handled @ todo s)"

subsection \<open>Accounting\<close>

text \<open>
  What an action adds to each of the three counters the workers update (bytes read
  unsigned, so that the sums below are sums of naturals).
\<close>

fun processed_by :: "action \<Rightarrow> nat" where
  "processed_by AddProcessed = 1"
| "processed_by a = 0"

fun deleted_by :: "action \<Rightarrow> nat" where
  "deleted_by AddDeleted = 1"
| "deleted_by a = 0"

fun bytes_by :: "action \<Rightarrow> nat" where
  "bytes_by (AddDeletedSize n) = unat n"
| "bytes_by a = 0"

text \<open>
  For a measure \<open>g\<close> of actions: what the workers hold pending, what the body owes for
  one object, what is still to come in state \<open>s\<close>, what the whole run owes, what a step
  of \<open>t\<close> performs, and what has been performed so far.
\<close>

definition inflight :: "(action \<Rightarrow> nat) \<Rightarrow> state \<Rightarrow> nat" where
  "inflight g s = sum_list (map (\<lambda>w. sum_list (map g (pend w))) (workerG s))"

definition owed :: "(action \<Rightarrow> nat) \<Rightarrow> env \<Rightarrow> ObjectInfo \<Rightarrow> nat" where
  "owed g e obj = sum_list (map g (worker_body e obj))"

definition remaining :: "(action \<Rightarrow> nat) \<Rightarrow> env \<Rightarrow> state \<Rightarrow> nat" where
  "remaining g e s = inflight g s + sum_list (map (owed g e) (todo s))"

definition owed_total :: "(action \<Rightarrow> nat) \<Rightarrow> env \<Rightarrow> nat" where
  "owed_total g e = sum_list (map (owed g e) (filter valid (listing2 e)))"

definition done_by :: "(action \<Rightarrow> nat) \<Rightarrow> tid \<Rightarrow> state \<Rightarrow> nat" where
  "done_by g t s =
     (case t of
        Worker i \<Rightarrow>
          (if i < length (workerG s) then
             (case workerG s ! i of Running (a # rest) \<Rightarrow> g a | _ \<Rightarrow> 0)
           else 0)
      | _ \<Rightarrow> 0)"

definition settled :: "(action \<Rightarrow> nat) \<Rightarrow> env \<Rightarrow> state \<Rightarrow> nat" where
  "settled g e s = owed_total g e - remaining g e s"

subsection \<open>The reporter when nothing was counted\<close>

text \<open>The reporter has not left its loop and the total it has loaded, if any, is 0.\<close>

fun sees_zero :: "reporter_pc \<Rightarrow> bool" where
  "sees_zero (RLoad2 p t) = (t = 0)"
| "sees_zero (RLoad3 p t d) = (t = 0)"
| "sees_zero RExit = False"
| "sees_zero r = True"

subsection \<open>More concrete inputs\<close>

text \<open>
  A listing entry that carries an error, a run whose listings contain it, a bucket whose
  listings yield nothing else, and two more schedules: \<open>until_deleted\<close> stops when
  worker 0 has removed object A and is about to count it, \<open>idle_run\<close> lets the reporter
  tick twice around the enumerator.
\<close>

definition obj_E :: ObjectInfo where
  "obj_E = \<lparr>Key = [], Size = 0, LastModified = 0, Err = Some ''timeout''\<rparr>"


definition empty_bucket :: env where
  "empty_bucket = (scenario 1 False removes)\<lparr>listing1 := [obj_E], listing2 := [obj_E]\<rparr>"

definition until_deleted :: "tid list" where
  "until_deleted =
     [Enumerator, Enumerator, Enumerator, Enumerator, Worker 0, Worker 0, Worker 0, Worker 0]"

definition idle_run :: "tid list" where
  "idle_run =
     [Reporter, Reporter, Reporter, Reporter, Enumerator, Enumerator, Enumerator, Enumerator,
      Enumerator, Enumerator, Reporter, Reporter, Reporter, Reporter, Main, Main, Main]"

subsection \<open>A schedule that completes\<close>

text \<open>
  The enumerator runs up to pass 2; then each entry of pass 2 is taken in turn and, when
  it is valid, worker 0 receives it and performs its whole body; then the enumerator
  closes and signals, and \<open>main\<close> reads and prints.
\<close>

fun feed :: "env \<Rightarrow> ObjectInfo list \<Rightarrow> tid list" where
  "feed e [] = []"
| "feed e (obj # rest) =
     (case Err obj of
        Some err \<Rightarrow> [Enumerator]
      | None \<Rightarrow> Enumerator # Worker 0 # replicate (length (worker_body e obj)) (Worker 0)) @
     feed e rest"

definition complete_schedule :: "env \<Rightarrow> tid list" where
  "complete_schedule e =
     replicate (length (fst (pass1 (listing1 e) 0))) Enumerator @ [Enumerator, Enumerator] @
     feed e (listing2 e) @ [Enumerator, Enumerator, Main, Main, Main, Main, Main]"

text \<open>The part of the state that a worker's own actions leave alone.\<close>

definition control ::
  "state \<Rightarrow> ObjectInfo list \<times> bool \<times> bool \<times> main_pc \<times> bool \<times> action list \<times> int64" where
  "control s =
     (fileChan s, fileChanClosed s, doneChan s, mainG s, panicked s, enumeratorG s,
      totalFiles s)"

subsection \<open>What is written out\<close>

text \<open>
  The actions that leave a trace in \<open>emitted\<close>; the candidate line of an object; the
  lines the enumerator writes; and an object whose candidate line is written or is still
  ahead of the worker that holds it.
\<close>

fun visible :: "action \<Rightarrow> bool" where
  "visible (Log l) = True"
| "visible (Remove k) = True"
| "visible a = False"




subsection \<open>An object of negative size\<close>

text \<open>
  \<open>Size\<close> and \<open>MinSize\<close> are signed: a listing entry of size \<open>-5\<close> passes a policy with
  \<open>MinSize = -10\<close>. The schedule \<open>until_counted\<close> stops when worker 0 has added the
  object to \<open>deletedFiles\<close> and is about to add its size.
\<close>

definition obj_N :: ObjectInfo where
  "obj_N = \<lparr>Key = ''N'', Size = - 5, LastModified = - 10, Err = None\<rparr>"

definition negative_sizes :: env where
  "negative_sizes =
     \<lparr>cfg = \<lparr>MaxAge = 30, MinSize = - 10, DryRun = False, Workers = 1\<rparr>,
      thresholdTime = 0, listing1 = [obj_N], listing2 = [obj_N], RemoveObject = removes\<rparr>"

definition until_counted :: "tid list" where
  "until_counted =
     [Enumerator, Enumerator, Enumerator, Worker 0, Worker 0, Worker 0, Worker 0, Worker 0]"

section \<open>Executions and their induction rule\<close>

lemma exec_append: "exec e (xs @ ys) s = exec e ys (exec e xs s)"
  by (induction xs arbitrary: s) simp_all

lemma reachable_init: "reachable e (init e)"
  unfolding reachable_def by (rule exI [of _ "[]"]) simp

lemma reachable_step: "reachable e s \<Longrightarrow> step e t s = Some s' \<Longrightarrow> reachable e s'"
  unfolding reachable_def
proof (elim exE)
  fix sched assume "step e t s = Some s'" "s = exec e sched (init e)"
  then have "s' = exec e (sched @ [t]) (init e)" by (simp add: exec_append)
  then show "\<exists>sched. s' = exec e sched (init e)" ..
qed

lemma reachable_exec: "reachable e (exec e sched (init e))"
  unfolding reachable_def by blast

lemma reachable_induct [consumes 1, case_names init step]:
  assumes "reachable e s"
    and "P (init e)"
    and "\<And>s t s'. reachable e s \<Longrightarrow> P s \<Longrightarrow> step e t s = Some s' \<Longrightarrow> P s'"
  shows "P s"
proof -
  have "reachable e (exec e sched (init e)) \<and> P (exec e sched (init e))" for sched
  proof (induction sched rule: rev_induct)
    case Nil
    show ?case using assms(2) reachable_init by simp
  next
    case (snoc t sched)
    show ?case
    proof (cases "step e t (exec e sched (init e))")
      case None
      then show ?thesis using snoc by (simp add: exec_append)
    next
      case (Some s')
      have r: "reachable e s'" using snoc Some reachable_step by blast
      have "P s'" using snoc Some assms(3) by blast
      then show ?thesis using r Some by (simp add: exec_append)
    qed
  qed
  then show ?thesis using assms(1) unfolding reachable_def by blast
qed

text \<open>The moves a goroutine can make, as a case rule.\<close>

lemma step_cases [consumes 1, case_names main reporter enumerator receive exit worker]:
  assumes "step e t s = Some s'"
  obtains
    (main) "t = Main" "alive s" "step_main s = Some s'"
  | (reporter) "t = Reporter" "alive s" "step_reporter s = Some s'"
  | (enumerator) a rest s1 where "t = Enumerator" "alive s" "enumeratorG s = a # rest"
      "perform e a s = Some s1" "s' = s1\<lparr>enumeratorG := rest\<rparr>"
  | (receive) i obj q where "t = Worker i" "alive s" "i < length (workerG s)"
      "workerG s ! i = Running []" "fileChan s = obj # q"
      "s' = s\<lparr>fileChan := q, workerG := (workerG s)[i := Running (worker_body e obj)]\<rparr>"
  | (exit) i where "t = Worker i" "alive s" "i < length (workerG s)"
      "workerG s ! i = Running []" "fileChan s = []" "fileChanClosed s"
      "s' = s\<lparr>workerG := (workerG s)[i := Exited]\<rparr>"
  | (worker) i a rest s1 where "t = Worker i" "alive s" "i < length (workerG s)"
      "workerG s ! i = Running (a # rest)" "perform e a s = Some s1"
      "s' = s1\<lparr>workerG := (workerG s)[i := Running rest]\<rparr>"
proof (cases t)
  case Main
  then show ?thesis using assms main by (simp add: step_def split: if_splits)
next
  case Reporter
  then show ?thesis using assms reporter by (simp add: step_def split: if_splits)
next
  case Enumerator
  then show ?thesis using assms enumerator
    by (auto simp: step_def step_enumerator_def split: if_splits list.splits)
next
  case (Worker i)
  then show ?thesis using assms receive exit worker
    by (auto simp: step_def step_worker_def split: if_splits list.splits goroutine.splits)
qed

lemma worker_body_eligible:
  "worker_body e obj =
     (if eligible e obj then
        Log (Candidate (Key obj) (Size obj) (LastModified obj)) #
        (if DryRun (cfg e) then []
         else Remove (Key obj) #
              (case RemoveObject e (Key obj) of
                 Some err \<Rightarrow> [Log (DeleteFailed (Key obj) err)]
               | None \<Rightarrow> [Log (Deleted (Key obj)), AddDeleted, AddDeletedSize (Size obj)])) @
        [AddProcessed]
      else [AddProcessed])"
  by (simp add: worker_body_def eligible_def)


lemma pass1_count: "snd (pass1 l c) = c + of_nat (length (filter valid l))"
  by (induction l arbitrary: c) (simp_all add: valid_def case_prod_beta split: option.splits)

lemma pass1_logs:
  "fst (pass1 l c) = map (\<lambda>obj. Log (ListError (the (Err obj)))) (filter (\<lambda>obj. \<not> valid obj) l)"
  by (induction l arbitrary: c) (simp_all add: valid_def case_prod_beta split: option.splits)

lemma pass2_map:
  "pass2 l = map (\<lambda>obj. case Err obj of Some err \<Rightarrow> Log (ListError err) | None \<Rightarrow> Send obj) l"
  by (induction l) (auto split: option.splits)

lemma sends_pass2: "sends (pass2 l @ rest) = filter valid l @ sends rest"
  by (induction l) (auto simp: valid_def split: option.splits)

lemma sends_logs: "sends (map (\<lambda>obj. Log (f obj)) l @ rest) = sends rest"
  by (induction l) auto

lemma enumerator_eq:
  "enumerator e =
     map (\<lambda>obj. Log (ListError (the (Err obj)))) (filter (\<lambda>obj. \<not> valid obj) (listing1 e)) @
     [StoreTotal (total1 e), Log (TotalLine (total1 e))] @
     map (\<lambda>obj. case Err obj of Some err \<Rightarrow> Log (ListError err) | None \<Rightarrow> Send obj) (listing2 e) @
     [Close, SignalDone]"
  using pass1_count [of "listing1 e" 0] pass1_logs [of "listing1 e" 0]
  by (simp add: enumerator_def total1_def pass2_map case_prod_beta)

lemma sends_enumerator: "sends (enumerator e) = filter valid (listing2 e)"
  using sends_pass2 [of "listing2 e" "[Close, SignalDone]"]
  by (simp add: enumerator_eq sends_logs pass2_map)

lemma well_pass2: "well (pass2 l @ [Close, SignalDone])"
  by (induction l) (auto split: option.splits)

lemma set_pass2: "StoreTotal m \<notin> set (pass2 l)"
  by (induction l) (auto split: option.splits)

lemma well_logs:
  "rest \<noteq> [] \<Longrightarrow> well (map (\<lambda>obj. Log (ListError (f obj))) l @ rest) = well rest"
  by (induction l) auto

lemma well_enumerator: "well (enumerator e)"
  using well_pass2 [of "listing2 e"] set_pass2 [of _ "listing2 e"]
  by (simp add: enumerator_eq well_logs flip: pass2_map)

lemma StoreTotal_enumerator: "StoreTotal n \<in> set (enumerator e) \<Longrightarrow> n = total1 e"
  using set_pass2 [of n "listing2 e"] by (auto simp: enumerator_eq simp flip: pass2_map)

lemma worker_body_actions: "list_all worker_action (worker_body e obj)"
  by (simp add: worker_body_def split: option.splits)

lemma well_Close_SignalDone: "well acts \<Longrightarrow> Close \<in> set acts \<Longrightarrow> SignalDone \<in> set acts"
  by (induction acts rule: well.induct) auto



lemma well_sends_Close: "well acts \<Longrightarrow> sends acts \<noteq> [] \<Longrightarrow> Close \<in> set acts"
  by (induction acts rule: well.induct) auto

lemma in_set_update: "x \<in> set (xs[i := y]) \<Longrightarrow> x = y \<or> x \<in> set xs"
  using set_update_subset_insert [of xs i y] by auto

lemma step_main_frame:
  assumes "step_main s = Some s'"
  shows "s' = s\<lparr>emitted := emitted s', mainG := mainG s'\<rparr>"
  using assms by (auto simp: step_main_def split: main_pc.splits if_splits)

lemma step_reporter_frame:
  assumes "step_reporter s = Some s'"
  shows "s' = s\<lparr>emitted := emitted s', reporterG := reporterG s'\<rparr>"
  using assms by (auto simp: step_reporter_def split: reporter_pc.splits if_splits)

lemma perform_worker_frame:
  assumes "worker_action a" and "perform e a s = Some s1"
  shows "s1 = s\<lparr>emitted := emitted s1, processedFiles := processedFiles s1,
                deletedFiles := deletedFiles s1, deletedSize := deletedSize s1\<rparr>"
  using assms by (cases a rule: worker_action.cases) auto

lemma perform_workerG: "perform e a s = Some s1 \<Longrightarrow> workerG s1 = workerG s"
  by (cases a) (auto split: if_splits)

lemma workers_inv_init: "workers_inv (init e)"
  by (simp add: workers_inv_def init_def)

lemma workers_inv_step:
  assumes "workers_inv s" and "step e t s = Some s'"
  shows "workers_inv s'"
  using assms(2)
proof (cases rule: step_cases)
  case main
  then have "workerG s' = workerG s" using step_main_frame [of s s']
    by (metis state.select_convs(10) state.surjective state.update_convs(8,12))
  then show ?thesis using assms(1) by (simp add: workers_inv_def)
next
  case reporter
  then have "workerG s' = workerG s" using step_reporter_frame [of s s']
    by (metis state.select_convs(10) state.surjective state.update_convs(9,12))
  then show ?thesis using assms(1) by (simp add: workers_inv_def)
next
  case (enumerator a rest s1)
  then have "workerG s' = workerG s" using perform_workerG [of e a s s1] by simp
  then show ?thesis using assms(1) by (simp add: workers_inv_def)
next
  case (receive i obj q)
  then show ?thesis using assms(1) worker_body_actions [of e obj]
    by (auto simp: workers_inv_def dest!: in_set_update)
next
  case (exit i)
  then show ?thesis using assms(1)
    by (auto simp: workers_inv_def dest!: in_set_update)
next
  case (worker i a rest s1)
  have "Running (a # rest) \<in> set (workerG s)" using worker by (metis nth_mem)
  then have wa: "list_all worker_action rest"
    using assms(1) by (auto simp: workers_inv_def)
  have "workerG s' = (workerG s)[i := Running rest]"
    using worker perform_workerG [of e a s s1] by simp
  then show ?thesis using assms(1) wa
    by (auto simp: workers_inv_def dest!: in_set_update)
qed

lemma worker_step_action:
  assumes "workers_inv s" and "i < length (workerG s)" and "workerG s ! i = Running (a # rest)"
  shows "worker_action a"
proof -
  have "Running (a # rest) \<in> set (workerG s)" using assms(2,3) by (metis nth_mem)
  then show ?thesis using assms(1) by (auto simp: workers_inv_def)
qed

lemma enumerator_inv_init: "enumerator_inv e (init e)"
proof -
  have "StoreTotal (total1 e) \<in> set (enumerator e)" "Close \<in> set (enumerator e)"
    "SignalDone \<in> set (enumerator e)"
    by (simp_all add: enumerator_eq)
  then show ?thesis
    using well_enumerator [of e] StoreTotal_enumerator [of _ e]
    by (auto simp: enumerator_inv_def init_def)
qed

lemma enumerator_inv_step:
  assumes "enumerator_inv e s" and "workers_inv s" and "step e t s = Some s'"
  shows "enumerator_inv e s'"
  using assms(3)
proof (cases rule: step_cases)
  case main
  then obtain out m where "s' = s\<lparr>emitted := out, mainG := m\<rparr>"
    using step_main_frame by blast
  then show ?thesis using assms(1) by (simp add: enumerator_inv_def)
next
  case reporter
  then obtain out r where "s' = s\<lparr>emitted := out, reporterG := r\<rparr>"
    using step_reporter_frame by blast
  then show ?thesis using assms(1) by (simp add: enumerator_inv_def)
next
  case (enumerator a rest s1)
  have w: "well (a # rest)" using assms(1) enumerator by (simp add: enumerator_inv_def)
  then show ?thesis using assms(1) enumerator
    by (cases "a # rest" rule: well.cases)
      (auto simp: enumerator_inv_def split: if_splits dest: well_Close_SignalDone)
next
  case (receive i obj q)
  then show ?thesis using assms(1) by (simp add: enumerator_inv_def)
next
  case (exit i)
  then show ?thesis using assms(1) by (simp add: enumerator_inv_def)
next
  case (worker i a rest s1)
  have "worker_action a" using worker assms(2) worker_step_action by blast
  then obtain out p d z where "s1 = s\<lparr>emitted := out, processedFiles := p,
                deletedFiles := d, deletedSize := z\<rparr>"
    using worker perform_worker_frame by blast
  then show ?thesis using assms(1) worker by (simp add: enumerator_inv_def)
qed

lemma sum_list_map_update:
  fixes f :: "'a \<Rightarrow> nat"
  shows "i < length xs \<Longrightarrow> sum_list (map f (xs[i := y])) + f (xs ! i) = sum_list (map f xs) + f y"
  by (induction xs arbitrary: i) (auto simp: nth_Cons split: nat.splits)

lemma inflight_update:
  assumes "i < length (workerG s)"
  shows "inflight g (s\<lparr>workerG := (workerG s)[i := w]\<rparr>) + sum_list (map g (pend (workerG s ! i))) =
         inflight g s + sum_list (map g (pend w))"
  using sum_list_map_update [OF assms, of "\<lambda>w. sum_list (map g (pend w))" w]
  by (simp add: inflight_def)

lemma sends_not_Send: "sends (a # rest) = (case a of Send obj \<Rightarrow> obj # sends rest | _ \<Rightarrow> sends rest)"
  by (cases a) auto

lemma remaining_step:
  assumes "workers_inv s" and "enumerator_inv e s" and "step e t s = Some s'"
  shows "remaining g e s = remaining g e s' + done_by g t s"
  using assms(3)
proof (cases rule: step_cases)
  case main
  then obtain out m where "s' = s\<lparr>emitted := out, mainG := m\<rparr>"
    using step_main_frame by blast
  then show ?thesis using main by (simp add: remaining_def inflight_def todo_def done_by_def)
next
  case reporter
  then obtain out r where "s' = s\<lparr>emitted := out, reporterG := r\<rparr>"
    using step_reporter_frame by blast
  then show ?thesis using reporter by (simp add: remaining_def inflight_def todo_def done_by_def)
next
  case (enumerator a rest s1)
  have w: "well (a # rest)" "fileChanClosed s = (Close \<notin> set (a # rest))"
    using assms(2) enumerator by (simp_all add: enumerator_inv_def)
  then show ?thesis using enumerator
    by (cases "a # rest" rule: well.cases)
      (auto simp: remaining_def inflight_def todo_def done_by_def split: if_splits)
next
  case (receive i obj q)
  then show ?thesis using inflight_update [of i s g "Running (worker_body e obj)"]
    by (simp add: remaining_def todo_def done_by_def owed_def inflight_def)
next
  case (exit i)
  then show ?thesis using inflight_update [of i s g Exited]
    by (simp add: remaining_def todo_def done_by_def inflight_def)
next
  case (worker i a rest s1)
  have "worker_action a" using worker assms(1) worker_step_action by blast
  then obtain out p d z where "s1 = s\<lparr>emitted := out, processedFiles := p,
                deletedFiles := d, deletedSize := z\<rparr>"
    using worker perform_worker_frame by blast
  then show ?thesis using worker inflight_update [of i s g "Running rest"]
    by (simp add: remaining_def todo_def done_by_def inflight_def)
qed

lemma counters_step:
  assumes "workers_inv s" and "enumerator_inv e s" and "step e t s = Some s'"
  shows "processedFiles s' = processedFiles s + of_nat (done_by processed_by t s) \<and>
         deletedFiles s' = deletedFiles s + of_nat (done_by deleted_by t s) \<and>
         deletedSize s' = deletedSize s + of_nat (done_by bytes_by t s)"
  using assms(3)
proof (cases rule: step_cases)
  case main
  then obtain out m where "s' = s\<lparr>emitted := out, mainG := m\<rparr>"
    using step_main_frame by blast
  then show ?thesis using main by (simp add: done_by_def)
next
  case reporter
  then obtain out r where "s' = s\<lparr>emitted := out, reporterG := r\<rparr>"
    using step_reporter_frame by blast
  then show ?thesis using reporter by (simp add: done_by_def)
next
  case (enumerator a rest s1)
  have w: "well (a # rest)"
    using assms(2) enumerator by (simp_all add: enumerator_inv_def)
  then show ?thesis using enumerator
    by (cases "a # rest" rule: well.cases) (auto simp: done_by_def split: if_splits)
next
  case (receive i obj q)
  then show ?thesis by (simp add: done_by_def)
next
  case (exit i)
  then show ?thesis by (simp add: done_by_def)
next
  case (worker i a rest s1)
  have "worker_action a" using worker assms(1) worker_step_action by blast
  then show ?thesis using worker
    by (cases a rule: worker_action.cases) (auto simp: done_by_def)
qed

lemma reachable_inv:
  assumes "reachable e s"
  shows "workers_inv s \<and> enumerator_inv e s"
  using assms
proof (induction rule: reachable_induct)
  case init
  show ?case using workers_inv_init enumerator_inv_init by simp
next
  case (step s t s')
  then show ?case using workers_inv_step enumerator_inv_step by blast
qed

lemma remaining_init: "remaining g e (init e) = owed_total g e"
proof -
  have "inflight g (init e) = 0" by (simp add: inflight_def init_def)
  moreover have "todo (init e) = filter valid (listing2 e)"
    by (simp add: todo_def init_def sends_enumerator)
  ultimately show ?thesis by (simp add: remaining_def owed_total_def)
qed

lemma remaining_le:
  assumes "reachable e s"
  shows "remaining g e s \<le> owed_total g e"
  using assms
proof (induction rule: reachable_induct)
  case init
  show ?case by (simp add: remaining_init)
next
  case (step s t s')
  then show ?case using remaining_step [of s e t s' g] reachable_inv [of e s] by simp
qed

lemma settled_step:
  assumes "reachable e s" and "step e t s = Some s'"
  shows "settled g e s' = settled g e s + done_by g t s"
  using remaining_step [of s e t s' g] reachable_inv [OF assms(1)] assms(2)
    remaining_le [OF assms(1), of g]
  by (simp add: settled_def)

lemma counters_settled:
  assumes "reachable e s"
  shows "processedFiles s = of_nat (settled processed_by e s) \<and>
         deletedFiles s = of_nat (settled deleted_by e s) \<and>
         deletedSize s = of_nat (settled bytes_by e s)"
  using assms
proof (induction rule: reachable_induct)
  case init
  show ?case by (simp add: settled_def remaining_init) (simp add: init_def)
next
  case (step s t s')
  then show ?case
    using counters_step [of s e t s'] reachable_inv [of e s] settled_step [of e s t s']
    by simp
qed

lemma todo_step:
  assumes "workers_inv s" and "enumerator_inv e s" and "step e t s = Some s'"
  shows "todo s' = todo s \<or> (\<exists>obj. todo s = obj # todo s')"
  using assms(3)
proof (cases rule: step_cases)
  case main
  then obtain out m where "s' = s\<lparr>emitted := out, mainG := m\<rparr>"
    using step_main_frame by blast
  then show ?thesis by (simp add: todo_def)
next
  case reporter
  then obtain out r where "s' = s\<lparr>emitted := out, reporterG := r\<rparr>"
    using step_reporter_frame by blast
  then show ?thesis by (simp add: todo_def)
next
  case (enumerator a rest s1)
  have w: "well (a # rest)" "fileChanClosed s = (Close \<notin> set (a # rest))"
    using assms(2) enumerator by (simp_all add: enumerator_inv_def)
  then show ?thesis using enumerator
    by (cases "a # rest" rule: well.cases) (auto simp: todo_def split: if_splits)
next
  case (receive i obj q)
  then show ?thesis by (simp add: todo_def)
next
  case (exit i)
  then show ?thesis by (simp add: todo_def)
next
  case (worker i a rest s1)
  have "worker_action a" using worker assms(1) worker_step_action by blast
  then obtain out p d z where "s1 = s\<lparr>emitted := out, processedFiles := p,
                deletedFiles := d, deletedSize := z\<rparr>"
    using worker perform_worker_frame by blast
  then show ?thesis using worker by (simp add: todo_def)
qed

lemma reachable_handled:
  assumes "reachable e s"
  shows "handled_inv e s"
  using assms
proof (induction rule: reachable_induct)
  case init
  show ?case by (simp add: handled_inv_def todo_def init_def sends_enumerator)
next
  case (step s t s')
  from step.IH obtain handled where h: "filter valid (listing2 e) = handled @ todo s"
    by (auto simp: handled_inv_def)
  from todo_step [of s e t s'] step.hyps reachable_inv [of e s]
  consider "todo s' = todo s" | obj where "todo s = obj # todo s'" by blast
  then show ?case
  proof cases
    case 1
    then show ?thesis using h by (auto simp: handled_inv_def)
  next
    case 2
    then have "filter valid (listing2 e) = (handled @ [obj]) @ todo s'" using h by simp
    then show ?thesis unfolding handled_inv_def by blast
  qed
qed

lemma owed_processed: "owed processed_by e obj = 1"
  by (auto simp: owed_def worker_body_eligible split: option.splits)

lemma owed_deleted: "owed deleted_by e obj = (if deletable e obj then 1 else 0)"
  by (auto simp: owed_def worker_body_eligible deletable_def split: option.splits)

lemma owed_bytes: "owed bytes_by e obj = (if deletable e obj then unat (Size obj) else 0)"
  by (auto simp: owed_def worker_body_eligible deletable_def split: option.splits)

lemma sum_owed_processed: "sum_list (map (owed processed_by e) l) = length l"
  by (induction l) (simp_all add: owed_processed)

lemma sum_owed_deleted: "sum_list (map (owed deleted_by e) l) = length (filter (deletable e) l)"
  by (induction l) (simp_all add: owed_deleted)

lemma sum_owed_bytes:
  "sum_list (map (owed bytes_by e) l) = sum_list (map (\<lambda>obj. unat (Size obj)) (filter (deletable e) l))"
  by (induction l) (simp_all add: owed_bytes)

lemma of_nat_sum_unat:
  "(of_nat (sum_list (map (\<lambda>obj. unat (Size obj)) l)) :: int64) = sum_list (map Size l)"
  by (induction l) simp_all

text \<open>The general accounting.\<close>

lemma accounting:
  assumes "reachable e s"
  shows "\<exists>handled. filter valid (listing2 e) = handled @ fileChan s @ sends (enumeratorG s) \<and>
     settled processed_by e s + inflight processed_by s = length handled \<and>
     settled deleted_by e s + inflight deleted_by s = length (filter (deletable e) handled) \<and>
     settled bytes_by e s + inflight bytes_by s =
       sum_list (map (\<lambda>obj. unat (Size obj)) (filter (deletable e) handled))"
proof -
  from reachable_handled [OF assms] obtain handled
    where h: "filter valid (listing2 e) = handled @ todo s"
    by (auto simp: handled_inv_def)
  have "settled g e s + inflight g s = sum_list (map (owed g e) handled)" for g
    using remaining_le [OF assms, of g] h
    by (simp add: settled_def remaining_def owed_total_def)
  then show ?thesis using h
    by (auto simp: todo_def sum_owed_processed sum_owed_deleted sum_owed_bytes)
qed

lemma perform_control:
  "perform e a s = Some s1 \<Longrightarrow> mainG s1 = mainG s \<and> reporterG s1 = reporterG s"
  by (cases a) (auto split: if_splits)

lemma other_goroutines:
  assumes "step e t s = Some s'"
  shows "(t \<noteq> Main \<longrightarrow> mainG s' = mainG s) \<and> (t \<noteq> Reporter \<longrightarrow> reporterG s' = reporterG s)"
  using assms
proof (cases rule: step_cases)
  case main
  then obtain out m where "s' = s\<lparr>emitted := out, mainG := m\<rparr>"
    using step_main_frame by blast
  then show ?thesis using main by simp
next
  case reporter
  then obtain out r where "s' = s\<lparr>emitted := out, reporterG := r\<rparr>"
    using step_reporter_frame by blast
  then show ?thesis using reporter by simp
next
  case (enumerator a rest s1)
  then show ?thesis using perform_control [of e a s s1] by simp
next
  case (receive i obj q)
  then show ?thesis by simp
next
  case (exit i)
  then show ?thesis by simp
next
  case (worker i a rest s1)
  then show ?thesis using perform_control [of e a s s1] by simp
qed

lemma emitted_step:
  assumes "workers_inv s" and "enumerator_inv e s" and "step e t s = Some s'"
  shows "emitted s' = emitted s \<or>
     (\<exists>tt p d z. t = Main \<and> mainG s = MLoad3 tt p d \<and> mainG s' = MExit \<and>
        emitted s' = emitted s @ [Log (Summary tt p d z)]) \<or>
     (\<exists>p tt d z. t = Reporter \<and> reporterG s = RLoad3 p tt d \<and> 0 <s tt \<and>
        emitted s' = emitted s @ [Log (Progress p tt d z)]) \<or>
     (\<exists>err. emitted s' = emitted s @ [Log (ListError err)]) \<or>
     (\<exists>n. emitted s' = emitted s @ [Log (TotalLine n)]) \<or>
     (\<exists>i a rest. t = Worker i \<and> i < length (workerG s) \<and> workerG s ! i = Running (a # rest) \<and>
        worker_action a \<and> emitted s' = emitted s @ [a])"
  using assms(3)
proof (cases rule: step_cases)
  case main
  then show ?thesis
    by (auto simp: step_main_def split: main_pc.splits if_splits)
next
  case reporter
  then show ?thesis
    by (auto simp: step_reporter_def report_def split: reporter_pc.splits if_splits)
next
  case (enumerator a rest s1)
  have w: "well (a # rest)"
    using assms(2) enumerator by (simp_all add: enumerator_inv_def)
  then show ?thesis using enumerator
    by (cases "a # rest" rule: well.cases) (auto split: if_splits)
next
  case (receive i obj q)
  then show ?thesis by simp
next
  case (exit i)
  then show ?thesis by simp
next
  case (worker i a rest s1)
  have wa: "worker_action a" using worker assms(1) worker_step_action by blast
  then have "emitted s1 = emitted s \<or> emitted s1 = emitted s @ [a]" using worker
    by (cases a rule: worker_action.cases) auto
  then show ?thesis using worker wa by auto
qed



lemma run_reachable:
  "run e sched = Inr s \<Longrightarrow> reachable e s \<and> \<not> Workers (cfg e) * 2 <s 0"
  by (auto simp: run_def reachable_def split: if_splits)

lemma well_no_Remove: "well acts \<Longrightarrow> Remove k \<notin> set acts"
  by (induction acts rule: well.induct) auto


lemma counters_when_drained:
  assumes "reachable e s" and "\<forall>w \<in> set (workerG s). pend w = []"
    and "fileChan s = []" and "sends (enumeratorG s) = []"
  shows "processedFiles s = of_nat (length (filter valid (listing2 e))) \<and>
         deletedFiles s = of_nat (length (filter (deletable e) (filter valid (listing2 e)))) \<and>
         deletedSize s = sum_list (map Size (filter (deletable e) (filter valid (listing2 e))))"
proof -
  have "inflight g s = 0" for g using assms(2) by (simp add: inflight_def)
  then show ?thesis
    using accounting [OF assms(1)] counters_settled [OF assms(1)] assms(3,4)
    by (auto simp: of_nat_sum_unat)
qed

lemma total_zero:
  assumes "filter valid (listing1 e) = []" and "reachable e s"
  shows "totalFiles s = 0"
  using reachable_inv [OF assms(2)] assms(1) by (simp add: enumerator_inv_def total1_def)

lemma reporter_zero:
  assumes "filter valid (listing1 e) = []" and "reachable e s"
  shows "sees_zero (reporterG s) \<and> (\<forall>p t d z. Log (Progress p t d z) \<notin> set (emitted s))"
  using assms(2)
proof (induction rule: reachable_induct)
  case init
  show ?case by (simp add: init_def)
next
  case (step s t s')
  have inv: "workers_inv s" "enumerator_inv e s" using reachable_inv [OF step.hyps(1)] by simp_all
  have z: "totalFiles s = 0" using total_zero [OF assms(1) step.hyps(1)] .
  have r: "sees_zero (reporterG s')"
  proof (cases "t = Reporter")
    case True
    then have "step_reporter s = Some s'" using step.hyps(2) by (simp add: step_def split: if_splits)
    then show ?thesis using step.IH z
      by (auto simp: step_reporter_def report_break_def split: reporter_pc.splits)
  next
    case False
    then show ?thesis using other_goroutines [OF step.hyps(2)] step.IH by simp
  qed
  have "\<not> (reporterG s = RLoad3 p tt d \<and> 0 <s tt)" for p tt d
    using step.IH by auto
  moreover have "\<not> worker_action (Log (Progress p tt d z))" for p tt d z by simp
  ultimately have "\<forall>p t d z. Log (Progress p t d z) \<notin> set (emitted s')"
    using emitted_step [OF inv step.hyps(2)] step.IH by auto
  then show ?case using r by simp
qed

lemma valid_sends:
  assumes "\<exists>obj \<in> set (listing2 e). valid obj"
  shows "sends (enumerator e) \<noteq> []"
  using assms by (simp add: sends_enumerator filter_empty_conv)

lemma blocked_without_workers:
  assumes "Workers (cfg e) = 0" and "\<exists>obj \<in> set (listing2 e). valid obj" and "reachable e s"
  shows "workerG s = [] \<and> fileChan s = [] \<and> sends (enumeratorG s) \<noteq> [] \<and> mainG s = MWait \<and>
         (\<forall>t p d z. Log (Summary t p d z) \<notin> set (emitted s))"
  using assms(3)
proof (induction rule: reachable_induct)
  case init
  show ?case using valid_sends [OF assms(2)] assms(1) by (simp add: init_def)
next
  case (step s t s')
  have inv: "workers_inv s" "enumerator_inv e s" using reachable_inv [OF step.hyps(1)] by simp_all
  have "Close \<in> set (enumeratorG s)" using inv(2) step.IH well_sends_Close
    by (auto simp: enumerator_inv_def)
  then have nd: "\<not> doneChan s" "\<not> fileChanClosed s"
    using inv(2) well_Close_SignalDone by (auto simp: enumerator_inv_def)
  have cap: "capacity e = 0" using assms(1) by (simp add: capacity_def)
  from step.hyps(2) have a: "workerG s' = [] \<and> fileChan s' = [] \<and> sends (enumeratorG s') \<noteq> [] \<and>
     mainG s' = MWait"
  proof (cases rule: step_cases)
    case main
    then show ?thesis using step.IH nd by (simp add: step_main_def)
  next
    case reporter
    then obtain out r where "s' = s\<lparr>emitted := out, reporterG := r\<rparr>"
      using step_reporter_frame by blast
    then show ?thesis using step.IH by simp
  next
    case (enumerator a rest s1)
    have w: "well (a # rest)" using inv(2) enumerator by (simp add: enumerator_inv_def)
    then show ?thesis using enumerator step.IH nd cap
      by (cases "a # rest" rule: well.cases) (auto split: if_splits)
  next
    case (receive i obj q)
    then show ?thesis using step.IH by simp
  next
    case (exit i)
    then show ?thesis using step.IH by simp
  next
    case (worker i a rest s1)
    then show ?thesis using step.IH by simp
  qed
  have "\<not> (mainG s = MLoad3 tt p d)" for tt p d using step.IH by simp
  moreover have "\<not> worker_action (Log (Summary tt p d z))" for p tt d z by simp
  ultimately have "\<forall>t p d z. Log (Summary t p d z) \<notin> set (emitted s')"
    using emitted_step [OF inv step.hyps(2)] step.IH by auto
  then show ?case using a by simp
qed




lemma sint_of_nat_small:
  assumes "n < 2 ^ 63"
  shows "sint (of_nat n :: int64) = int n"
proof -
  have "int n < 2 ^ 63" using assms by (metis of_nat_less_iff of_nat_numeral of_nat_power)
  then have "signed_take_bit 63 (int n) = int n"
    by (simp add: signed_take_bit_int_eq_self)
  then show ?thesis by (simp add: signed_of_nat)
qed

lemma sle_of_nat:
  assumes "a \<le> b" and "b < 2 ^ 63"
  shows "(of_nat a :: int64) \<le>s of_nat b"
  using assms sint_of_nat_small [of a] sint_of_nat_small [of b]
  by (simp add: word_sle_eq)

lemma owed_total_deleted_le: "owed_total deleted_by e \<le> length (listing2 e)"
proof -
  have "owed_total deleted_by e = length (filter (deletable e) (filter valid (listing2 e)))"
    by (simp add: owed_total_def sum_owed_deleted)
  also have "\<dots> \<le> length (filter valid (listing2 e))" by (rule length_filter_le)
  also have "\<dots> \<le> length (listing2 e)" by (rule length_filter_le)
  finally show ?thesis .
qed

lemma owed_total_bytes_le:
  "owed_total bytes_by e \<le> sum_list (map (\<lambda>obj. unat (Size obj)) (listing2 e))"
proof -
  have "owed_total bytes_by e =
      sum_list (map (\<lambda>obj. unat (Size obj)) (filter (deletable e) (filter valid (listing2 e))))"
    by (simp add: owed_total_def sum_owed_bytes)
  also have "\<dots> \<le> sum_list (map (\<lambda>obj. unat (Size obj)) (filter valid (listing2 e)))"
    by (rule sum_list_filter_le_nat)
  also have "\<dots> \<le> sum_list (map (\<lambda>obj. unat (Size obj)) (listing2 e))"
    by (rule sum_list_filter_le_nat)
  finally show ?thesis .
qed

lemma counters_monotone:
  assumes "reachable e s" and "step e t s = Some s'"
    and "length (listing2 e) < 2 ^ 63"
    and "sum_list (map (\<lambda>obj. unat (Size obj)) (listing2 e)) < 2 ^ 63"
  shows "deletedFiles s \<le>s deletedFiles s' \<and> deletedSize s \<le>s deletedSize s'"
proof -
  have r': "reachable e s'" using assms(1,2) reachable_step by blast
  have le: "settled g e s \<le> settled g e s'" for g
    using settled_step [OF assms(1,2), of g] by simp
  have b: "settled g e s' \<le> owed_total g e" for g by (simp add: settled_def)
  have "settled deleted_by e s' < 2 ^ 63"
    using b [of deleted_by] owed_total_deleted_le [of e] assms(3) by linarith
  moreover have "settled bytes_by e s' < 2 ^ 63"
    using b [of bytes_by] owed_total_bytes_le [of e] assms(4) by linarith
  ultimately show ?thesis
    using counters_settled [OF assms(1)] counters_settled [OF r'] le sle_of_nat by simp
qed

lemma worker_body_deletable:
  "(deletable e obj \<longrightarrow>
      worker_body e obj =
        [Log (Candidate (Key obj) (Size obj) (LastModified obj)), Remove (Key obj),
         Log (Deleted (Key obj)), AddDeleted, AddDeletedSize (Size obj), AddProcessed]) \<and>
   (\<not> deletable e obj \<longrightarrow>
      AddDeleted \<notin> set (worker_body e obj) \<and> (\<forall>n. AddDeletedSize n \<notin> set (worker_body e obj)))"
  by (auto simp: worker_body_eligible deletable_def split: option.splits)

lemma until_deleted_step:
  "step (scenario 1 False removes) (Worker 0)
     (exec (scenario 1 False removes) until_deleted (init (scenario 1 False removes))) =
   Some (exec (scenario 1 False removes) (until_deleted @ [Worker 0])
     (init (scenario 1 False removes)))"
  by code_simp

lemma sint_double:
  assumes "- (2 ^ 62) \<le> sint w" and "sint w < 2 ^ 62"
  shows "sint (w * 2 :: int64) = 2 * sint w"
proof -
  have "signed_take_bit 63 (sint w * 2) = sint w * 2"
    using assms by (simp add: signed_take_bit_int_eq_self)
  then show ?thesis by (simp add: sint_word_ariths)
qed

lemma negative_workers_panic:
  assumes "- (2 ^ 62) \<le> sint (Workers (cfg e))" and "sint (Workers (cfg e)) < 0"
  shows "run e sched = Inl MakechanSizeOutOfRange"
  using assms sint_double [of "Workers (cfg e)"] by (simp add: run_def word_sless_alt)

lemma worker_runs_body:
  assumes "alive s" and "i < length (workerG s)" and "workerG s ! i = Running acts"
    and "list_all worker_action acts"
  shows "workerG (exec e (replicate (length acts) (Worker i)) s) = (workerG s)[i := Running []] \<and>
         control (exec e (replicate (length acts) (Worker i)) s) = control s"
  using assms
proof (induction acts arbitrary: s)
  case Nil
  then show ?case by (metis exec.simps(1) list.size(3) list_update_id replicate_0)
next
  case (Cons a acts)
  from Cons.prems(4) have wa: "worker_action a" by simp
  then obtain s1 where p: "perform e a s = Some s1" by (cases a rule: worker_action.cases) auto
  then obtain out p' d z where f: "s1 = s\<lparr>emitted := out, processedFiles := p',
                deletedFiles := d, deletedSize := z\<rparr>"
    using wa perform_worker_frame by blast
  let ?s' = "s1\<lparr>workerG := (workerG s)[i := Running acts]\<rparr>"
  have st: "step e (Worker i) s = Some ?s'"
    using Cons.prems(1-3) p by (simp add: step_def step_worker_def)
  have "workerG (exec e (replicate (length acts) (Worker i)) ?s') = (workerG ?s')[i := Running []] \<and>
         control (exec e (replicate (length acts) (Worker i)) ?s') = control ?s'"
    using Cons.prems f by (intro Cons.IH) (simp_all add: alive_def)
  then show ?case using st f by (simp add: control_def)
qed

lemma enumerator_runs_logs:
  assumes "alive s" and "enumeratorG s = map (\<lambda>x. Log (f x)) l @ rest"
  shows "enumeratorG (exec e (replicate (length l) Enumerator) s) = rest \<and>
         alive (exec e (replicate (length l) Enumerator) s) \<and>
         workerG (exec e (replicate (length l) Enumerator) s) = workerG s \<and>
         fileChan (exec e (replicate (length l) Enumerator) s) = fileChan s \<and>
         fileChanClosed (exec e (replicate (length l) Enumerator) s) = fileChanClosed s \<and>
         mainG (exec e (replicate (length l) Enumerator) s) = mainG s"
  using assms
proof (induction l arbitrary: s)
  case Nil
  then show ?case by simp
next
  case (Cons x l)
  let ?s' = "s\<lparr>emitted := emitted s @ [Log (f x)], enumeratorG := map (\<lambda>x. Log (f x)) l @ rest\<rparr>"
  have st: "step e Enumerator s = Some ?s'"
    using Cons.prems by (simp add: step_def step_enumerator_def)
  have "enumeratorG (exec e (replicate (length l) Enumerator) ?s') = rest \<and>
         alive (exec e (replicate (length l) Enumerator) ?s') \<and>
         workerG (exec e (replicate (length l) Enumerator) ?s') = workerG ?s' \<and>
         fileChan (exec e (replicate (length l) Enumerator) ?s') = fileChan ?s' \<and>
         fileChanClosed (exec e (replicate (length l) Enumerator) ?s') = fileChanClosed ?s' \<and>
         mainG (exec e (replicate (length l) Enumerator) ?s') = mainG ?s'"
    using Cons.prems by (intro Cons.IH) (simp_all add: alive_def)
  then show ?case using st by simp
qed

lemma feed_runs:
  assumes "alive s" and "workerG s \<noteq> []" and "workerG s ! 0 = Running []"
    and "fileChan s = []" and "\<not> fileChanClosed s" and "0 < capacity e"
    and "enumeratorG s = pass2 l @ rest"
  shows "enumeratorG (exec e (feed e l) s) = rest \<and> alive (exec e (feed e l) s) \<and>
         workerG (exec e (feed e l) s) = workerG s \<and> fileChan (exec e (feed e l) s) = [] \<and>
         \<not> fileChanClosed (exec e (feed e l) s) \<and> mainG (exec e (feed e l) s) = mainG s"
  using assms
proof (induction l arbitrary: s)
  case Nil
  then show ?case by simp
next
  case (Cons obj l)
  show ?case
  proof (cases "Err obj")
    case (Some err)
    let ?s' = "s\<lparr>emitted := emitted s @ [Log (ListError err)], enumeratorG := pass2 l @ rest\<rparr>"
    have st: "step e Enumerator s = Some ?s'"
      using Cons.prems Some by (simp add: step_def step_enumerator_def)
    have "enumeratorG (exec e (feed e l) ?s') = rest \<and> alive (exec e (feed e l) ?s') \<and>
         workerG (exec e (feed e l) ?s') = workerG ?s' \<and> fileChan (exec e (feed e l) ?s') = [] \<and>
         \<not> fileChanClosed (exec e (feed e l) ?s') \<and> mainG (exec e (feed e l) ?s') = mainG ?s'"
      using Cons.prems by (intro Cons.IH) (simp_all add: alive_def)
    then show ?thesis using st Some by simp
  next
    case None
    let ?s1 = "s\<lparr>fileChan := [obj], enumeratorG := pass2 l @ rest\<rparr>"
    let ?s2 = "?s1\<lparr>fileChan := [], workerG := (workerG s)[0 := Running (worker_body e obj)]\<rparr>"
    let ?s3 = "exec e (replicate (length (worker_body e obj)) (Worker 0)) ?s2"
    have st1: "step e Enumerator s = Some ?s1"
      using Cons.prems None by (simp add: step_def step_enumerator_def)
    have st2: "step e (Worker 0) ?s1 = Some ?s2"
      using Cons.prems by (simp add: step_def step_worker_def alive_def)
    have b: "workerG ?s3 = (workerG ?s2)[0 := Running []] \<and> control ?s3 = control ?s2"
      using Cons.prems worker_body_actions [of e obj]
      by (intro worker_runs_body) (simp_all add: alive_def)
    have w: "workerG ?s3 = workerG s"
      using b Cons.prems(2,3) by (simp add: list_update_same_conv)
    have c: "fileChan ?s3 = [] \<and> \<not> fileChanClosed ?s3 \<and> enumeratorG ?s3 = pass2 l @ rest \<and> alive ?s3 \<and>
        mainG ?s3 = mainG s"
      using b Cons.prems by (simp add: control_def alive_def)
    have "enumeratorG (exec e (feed e l) ?s3) = rest \<and> alive (exec e (feed e l) ?s3) \<and>
         workerG (exec e (feed e l) ?s3) = workerG ?s3 \<and> fileChan (exec e (feed e l) ?s3) = [] \<and>
         \<not> fileChanClosed (exec e (feed e l) ?s3) \<and> mainG (exec e (feed e l) ?s3) = mainG ?s3"
      using c w Cons.prems by (intro Cons.IH) simp_all
    then show ?thesis using st1 st2 None w c by (simp add: exec_append)
  qed
qed

lemma length_pass1: "length (fst (pass1 l c)) = length (filter (\<lambda>obj. \<not> valid obj) l)"
  by (simp add: pass1_logs)

lemma main_prints:
  assumes "alive s" and "mainG s = MWait" and "doneChan s"
  shows "exec e [Main, Main, Main, Main, Main] s =
           s\<lparr>emitted := emitted s @
                [Log (Summary (totalFiles s) (processedFiles s) (deletedFiles s) (deletedSize s))],
             mainG := MExit\<rparr>"
  using assms by (simp add: step_def step_main_def alive_def)

lemma can_complete:
  assumes "1 \<le> sint (Workers (cfg e))" and "sint (Workers (cfg e)) < 2 ^ 62"
  shows "\<exists>s. run e (complete_schedule e) = Inr s \<and> mainG s = MExit \<and>
           fileChanClosed s \<and> doneChan s \<and> enumeratorG s = [] \<and> fileChan s = [] \<and>
           (\<forall>w \<in> set (workerG s). pend w = []) \<and>
           totalFiles s = total1 e \<and>
           processedFiles s = of_nat (length (filter valid (listing2 e))) \<and>
           last (emitted s) =
             Log (Summary (total1 e)
               (of_nat (length (filter valid (listing2 e))))
               (of_nat (length (filter (deletable e) (filter valid (listing2 e)))))
               (sum_list (map Size (filter (deletable e) (filter valid (listing2 e))))))"
proof -
  define logs where "logs = filter (\<lambda>obj. \<not> valid obj) (listing1 e)"
  define feeding where "feeding = pass2 (listing2 e) @ [Close, SignalDone]"
  define s1 where "s1 = exec e (replicate (length logs) Enumerator) (init e)"
  define s2 where "s2 = exec e [Enumerator, Enumerator] s1"
  define s3 where "s3 = exec e (feed e (listing2 e)) s2"
  define s4 where "s4 = exec e [Enumerator, Enumerator] s3"
  define s5 where "s5 = exec e [Main, Main, Main, Main, Main] s4"
  have cap: "0 < capacity e" "workerG (init e) \<noteq> []" "workerG (init e) ! 0 = Running []"
    using assms sint_double [of "Workers (cfg e)"] by (simp_all add: capacity_def init_def)
  have norun: "run e (complete_schedule e) = Inr (exec e (complete_schedule e) (init e))"
    using assms sint_double [of "Workers (cfg e)"] by (simp add: run_def word_sless_alt)
  have i: "alive (init e)" "fileChan (init e) = []" "\<not> fileChanClosed (init e)"
    "mainG (init e) = MWait"
    by (simp_all add: init_def alive_def)
  have en: "enumeratorG (init e) =
      map (\<lambda>obj. Log (ListError (the (Err obj)))) logs @
        ([StoreTotal (total1 e), Log (TotalLine (total1 e))] @ feeding)"
    using enumerator_eq [of e] by (simp add: init_def pass2_map logs_def feeding_def)
  have p1: "enumeratorG s1 = [StoreTotal (total1 e), Log (TotalLine (total1 e))] @ feeding \<and>
      alive s1 \<and> workerG s1 = workerG (init e) \<and>
      fileChan s1 = fileChan (init e) \<and> fileChanClosed s1 = fileChanClosed (init e) \<and>
      mainG s1 = mainG (init e)"
    unfolding s1_def using i(1) en by (rule enumerator_runs_logs)
  have p2: "enumeratorG s2 = feeding \<and> alive s2 \<and>
      workerG s2 = workerG (init e) \<and> fileChan s2 = [] \<and> \<not> fileChanClosed s2 \<and>
      mainG s2 = MWait"
    unfolding s2_def using p1 i by (simp add: step_def step_enumerator_def alive_def)
  have p3: "enumeratorG s3 = [Close, SignalDone] \<and> alive s3 \<and>
         workerG s3 = workerG s2 \<and> fileChan s3 = [] \<and>
         \<not> fileChanClosed s3 \<and> mainG s3 = mainG s2"
    unfolding s3_def using p2 cap by (intro feed_runs) (simp_all add: feeding_def)
  have p4: "enumeratorG s4 = [] \<and> alive s4 \<and> workerG s4 = workerG (init e) \<and>
      fileChan s4 = [] \<and> doneChan s4 \<and> mainG s4 = MWait"
    unfolding s4_def using p3 p2 by (simp add: step_def step_enumerator_def alive_def)
  have "s4 = exec e (replicate (length logs) Enumerator @ [Enumerator, Enumerator] @
      feed e (listing2 e) @ [Enumerator, Enumerator]) (init e)"
    unfolding s4_def s3_def s2_def s1_def exec_append ..
  then have r4: "reachable e s4" using reachable_exec by simp
  have idle: "\<forall>w \<in> set (workerG s4). pend w = []" using p4 by (simp add: init_def)
  have tot: "totalFiles s4 = total1 e"
    using reachable_inv [OF r4] p4 by (simp add: enumerator_inv_def)
  have cnt: "processedFiles s4 = of_nat (length (filter valid (listing2 e))) \<and>
         deletedFiles s4 = of_nat (length (filter (deletable e) (filter valid (listing2 e)))) \<and>
         deletedSize s4 = sum_list (map Size (filter (deletable e) (filter valid (listing2 e))))"
    using p4 by (intro counters_when_drained [OF r4 idle]) simp_all
  have sched: "complete_schedule e = replicate (length logs) Enumerator @
      [Enumerator, Enumerator] @ feed e (listing2 e) @ [Enumerator, Enumerator] @
      [Main, Main, Main, Main, Main]"
    by (simp add: complete_schedule_def length_pass1 logs_def)
  have fin: "exec e (complete_schedule e) (init e) = s5"
    unfolding sched s5_def s4_def s3_def s2_def s1_def exec_append ..
  have "s5 = s4\<lparr>emitted := emitted s4 @
                [Log (Summary (totalFiles s4) (processedFiles s4) (deletedFiles s4)
                   (deletedSize s4))],
             mainG := MExit\<rparr>"
    unfolding s5_def using p4 by (intro main_prints) simp_all
  then have a: "mainG s5 = MExit \<and> last (emitted s5) =
      Log (Summary (totalFiles s4) (processedFiles s4) (deletedFiles s4) (deletedSize s4)) \<and>
      fileChanClosed s5 = fileChanClosed s4 \<and> doneChan s5 = doneChan s4 \<and>
      enumeratorG s5 = enumeratorG s4 \<and> fileChan s5 = fileChan s4 \<and>
      workerG s5 = workerG s4 \<and> totalFiles s5 = totalFiles s4 \<and>
      processedFiles s5 = processedFiles s4"
    by simp
  have cl: "fileChanClosed s4"
    using reachable_inv [OF r4] p4 by (simp add: enumerator_inv_def)
  have "mainG s5 = MExit \<and>
           fileChanClosed s5 \<and> doneChan s5 \<and> enumeratorG s5 = [] \<and> fileChan s5 = [] \<and>
           (\<forall>w \<in> set (workerG s5). pend w = []) \<and>
           totalFiles s5 = total1 e \<and>
           processedFiles s5 = of_nat (length (filter valid (listing2 e))) \<and>
           last (emitted s5) =
             Log (Summary (total1 e)
               (of_nat (length (filter valid (listing2 e))))
               (of_nat (length (filter (deletable e) (filter valid (listing2 e)))))
               (sum_list (map Size (filter (deletable e) (filter valid (listing2 e))))))"
    using a tot cnt p4 cl idle by simp
  then show ?thesis using norun fin by simp
qed

lemma worker_body_effect:
  assumes "alive s" and "i < length (workerG s)" and "workerG s ! i = Running acts"
    and "list_all worker_action acts"
  shows "exec e (replicate (length acts) (Worker i)) s =
           s\<lparr>emitted := emitted s @ filter visible acts,
             processedFiles := processedFiles s + of_nat (sum_list (map processed_by acts)),
             deletedFiles := deletedFiles s + of_nat (sum_list (map deleted_by acts)),
             deletedSize := deletedSize s + of_nat (sum_list (map bytes_by acts)),
             workerG := (workerG s)[i := Running []]\<rparr>"
  using assms
proof (induction acts arbitrary: s)
  case Nil
  then have "(workerG s)[i := Running []] = workerG s" by (metis list_update_id)
  then show ?case by simp
next
  case (Cons a acts)
  from Cons.prems(4) have wa: "worker_action a" and rest: "list_all worker_action acts"
    by simp_all
  define s' where "s' = (the (perform e a s))\<lparr>workerG := (workerG s)[i := Running acts]\<rparr>"
  have st: "step e (Worker i) s = Some s'"
    using Cons.prems(1-3) wa unfolding s'_def
    by (cases a rule: worker_action.cases) (simp_all add: step_def step_worker_def)
  have eq: "s' = s\<lparr>emitted := emitted s @ filter visible [a],
             processedFiles := processedFiles s + of_nat (processed_by a),
             deletedFiles := deletedFiles s + of_nat (deleted_by a),
             deletedSize := deletedSize s + of_nat (bytes_by a),
             workerG := (workerG s)[i := Running acts]\<rparr>"
    using wa unfolding s'_def by (cases a rule: worker_action.cases) simp_all
  have pre: "alive s'" "i < length (workerG s')" "workerG s' ! i = Running acts"
    using Cons.prems(1,2) by (simp_all add: eq alive_def)
  have "exec e (replicate (length (a # acts)) (Worker i)) s =
      exec e (replicate (length acts) (Worker i)) s'"
    using st by simp
  also have "\<dots> = s'\<lparr>emitted := emitted s' @ filter visible acts,
             processedFiles := processedFiles s' + of_nat (sum_list (map processed_by acts)),
             deletedFiles := deletedFiles s' + of_nat (sum_list (map deleted_by acts)),
             deletedSize := deletedSize s' + of_nat (sum_list (map bytes_by acts)),
             workerG := (workerG s')[i := Running []]\<rparr>"
    using pre rest by (rule Cons.IH)
  also have "\<dots> = s\<lparr>emitted := emitted s @ filter visible (a # acts),
             processedFiles := processedFiles s + of_nat (sum_list (map processed_by (a # acts))),
             deletedFiles := deletedFiles s + of_nat (sum_list (map deleted_by (a # acts))),
             deletedSize := deletedSize s + of_nat (sum_list (map bytes_by (a # acts))),
             workerG := (workerG s)[i := Running []]\<rparr>"
    by (simp add: eq add.assoc)
  finally show ?case .
qed

lemma worker_iteration:
  assumes "alive s" and "i < length (workerG s)" and "workerG s ! i = Running []"
    and "fileChan s = obj # q"
  shows "exec e (Worker i # replicate (length (worker_body e obj)) (Worker i)) s =
           s\<lparr>fileChan := q,
             emitted := emitted s @ filter visible (worker_body e obj),
             processedFiles := processedFiles s + 1,
             deletedFiles := deletedFiles s + (if deletable e obj then 1 else 0),
             deletedSize := deletedSize s + (if deletable e obj then Size obj else 0)\<rparr>"
proof -
  define s1 where "s1 = s\<lparr>fileChan := q,
      workerG := (workerG s)[i := Running (worker_body e obj)]\<rparr>"
  have st: "step e (Worker i) s = Some s1"
    using assms by (simp add: step_def step_worker_def s1_def)
  have pre: "alive s1" "i < length (workerG s1)" "workerG s1 ! i = Running (worker_body e obj)"
    using assms(1,2) by (simp_all add: s1_def alive_def)
  have id: "(workerG s)[i := Running []] = workerG s" using assms(3) by (metis list_update_id)
  have sums: "sum_list (map processed_by (worker_body e obj)) = 1"
    "sum_list (map deleted_by (worker_body e obj)) = (if deletable e obj then 1 else 0)"
    "sum_list (map bytes_by (worker_body e obj)) = (if deletable e obj then unat (Size obj) else 0)"
    using owed_processed [of e obj] owed_deleted [of e obj] owed_bytes [of e obj]
    by (simp_all add: owed_def)
  show ?thesis
    using st worker_body_effect [OF pre worker_body_actions, of e] id
    by (simp add: sums s1_def)
qed














section \<open>The filter\<close>

text \<open>
  C2. An object passes the two guards of the worker exactly when its size is at least
  \<open>MinSize\<close> and it was not modified after \<open>thresholdTime\<close>. A smaller object, whatever its
  age, and a more recent one, whatever its size, is only counted as processed: the worker
  neither logs it as a candidate nor asks for its removal. An object that passes is logged
  as a candidate first.
\<close>

theorem filter_selects:
  "(eligible e obj \<longleftrightarrow>
      MinSize (cfg e) \<le>s Size obj \<and> LastModified obj \<le> thresholdTime e) \<and>
   (Size obj <s MinSize (cfg e) \<longrightarrow>
      \<not> eligible e obj \<and> worker_body e obj = [AddProcessed]) \<and>
   (thresholdTime e < LastModified obj \<longrightarrow>
      \<not> eligible e obj \<and> worker_body e obj = [AddProcessed]) \<and>
   (MinSize (cfg e) \<le>s Size obj \<and> LastModified obj \<le> thresholdTime e \<longrightarrow>
      hd (worker_body e obj) = Log (Candidate (Key obj) (Size obj) (LastModified obj)))"
  by (auto simp: worker_body_def eligible_def After_def)

theorem filter_selects_witness:
  "eligible (scenario 1 False removes) obj_A \<and>
   hd (worker_body (scenario 1 False removes) obj_A) = Log (Candidate ''A'' 10485760 (- 10)) \<and>
   worker_body (scenario 1 False removes) obj_B = [AddProcessed] \<and>
   worker_body (scenario 1 False removes) obj_C = [AddProcessed]"
  using filter_selects [of "scenario 1 False removes" obj_A]
    filter_selects [of "scenario 1 False removes" obj_B]
    filter_selects [of "scenario 1 False removes" obj_C]
  by (simp add: scenario_def obj_A_def obj_B_def obj_C_def)

section \<open>The progress reporter\<close>

text \<open>
  C6. The last step of a tick, with \<open>p\<close>, \<open>t\<close>, \<open>d\<close> the values of \<open>processedFiles\<close>,
  \<open>totalFiles\<close> and \<open>deletedFiles\<close> loaded in this tick: a progress line is written exactly
  when \<open>t > 0\<close>, and the loop is left exactly when \<open>p \<ge> t\<close> and \<open>t > 0\<close>; otherwise
  the reporter goes back to sleep (so with \<open>t = 0\<close> it writes nothing and keeps ticking).
  A whole tick that no other goroutine interleaves with does the same on the counters of
  the state it starts in.
\<close>

theorem reporter_tick:
  assumes "alive s"
  shows "(reporterG s = RLoad3 p t d \<longrightarrow>
            step e Reporter s =
              Some (s\<lparr>emitted := emitted s @
                        (if 0 <s t then [Log (Progress p t d (deletedSize s))] else []),
                      reporterG := (if t \<le>s p \<and> 0 <s t then RExit else RSleep)\<rparr>)) \<and>
         (reporterG s = RSleep \<longrightarrow>
            exec e [Reporter, Reporter, Reporter, Reporter] s =
              s\<lparr>emitted := emitted s @
                   (if 0 <s totalFiles s
                    then [Log (Progress (processedFiles s) (totalFiles s) (deletedFiles s)
                                (deletedSize s))]
                    else []),
                reporterG :=
                  (if totalFiles s \<le>s processedFiles s \<and> 0 <s totalFiles s then RExit
                   else RSleep)\<rparr>)"
  using assms by (simp add: step_def step_reporter_def report_def report_break_def alive_def)

theorem reporter_tick_witness:
  "step (scenario 1 False removes) Reporter
      ((init (scenario 1 False removes))\<lparr>reporterG := RLoad3 3 3 1\<rparr>) =
   Some ((init (scenario 1 False removes))
      \<lparr>reporterG := RLoad3 3 3 1, emitted := [Log (Progress 3 3 1 0)], reporterG := RExit\<rparr>) \<and>
   exec (scenario 1 False removes) [Reporter, Reporter, Reporter, Reporter]
      (init (scenario 1 False removes)) =
   init (scenario 1 False removes)"
  using reporter_tick [of "(init (scenario 1 False removes))\<lparr>reporterG := RLoad3 3 3 1\<rparr>" 3 3 1
      "scenario 1 False removes"]
    reporter_tick [of "init (scenario 1 False removes)" _ _ _ "scenario 1 False removes"]
  by (simp add: init_def alive_def word_sless_alt word_sle_eq)

section \<open>A failed deletion\<close>

text \<open>
  C4. A worker at the head of its loop that receives an eligible object whose removal
  fails (not a dry run) performs four actions: the candidate line, one call of
  \<open>RemoveObject\<close>, the failure line with key and reason, one increment of
  \<open>processedFiles\<close>. Run on its own from any live state it ends at the head of its loop
  again, ready for the next object; \<open>deletedFiles\<close> and \<open>deletedSize\<close> are not touched.
\<close>

theorem deletion_failure:
  assumes "alive s" and "i < length (workerG s)" and "workerG s ! i = Running []"
    and "fileChan s = obj # q"
    and "eligible e obj" and "\<not> DryRun (cfg e)" and "RemoveObject e (Key obj) = Some reason"
  shows "worker_body e obj =
           [Log (Candidate (Key obj) (Size obj) (LastModified obj)), Remove (Key obj),
            Log (DeleteFailed (Key obj) reason), AddProcessed] \<and>
         exec e [Worker i, Worker i, Worker i, Worker i, Worker i] s =
           s\<lparr>fileChan := q,
             emitted := emitted s @
                [Log (Candidate (Key obj) (Size obj) (LastModified obj)), Remove (Key obj),
                 Log (DeleteFailed (Key obj) reason)],
             processedFiles := processedFiles s + 1\<rparr>"
proof -
  have body: "worker_body e obj =
           [Log (Candidate (Key obj) (Size obj) (LastModified obj)), Remove (Key obj),
            Log (DeleteFailed (Key obj) reason), AddProcessed]"
    using assms(5-7) by (simp add: worker_body_def eligible_def split: if_splits)
  have "(workerG s)[i := Running []] = workerG s"
    using assms(3) by (metis list_update_id)
  then show ?thesis
    using assms(1-4) body by (simp add: step_def step_worker_def alive_def)
qed

theorem deletion_failure_witness:
  "exec (scenario 1 False denies) [Worker 0, Worker 0, Worker 0, Worker 0, Worker 0]
      ((init (scenario 1 False denies))\<lparr>fileChan := [obj_A, obj_B]\<rparr>) =
   (init (scenario 1 False denies))
      \<lparr>fileChan := [obj_B],
       emitted := [Log (Candidate ''A'' 10485760 (- 10)), Remove ''A'',
                   Log (DeleteFailed ''A'' ''AccessDenied'')],
       processedFiles := 1\<rparr>"
  using deletion_failure [of "(init (scenario 1 False denies))\<lparr>fileChan := [obj_A, obj_B]\<rparr>" 0
      obj_A "[obj_B]" "scenario 1 False denies" "''AccessDenied''"]
  by (simp add: init_def alive_def eligible_def After_def scenario_def denies_def obj_A_def)

section \<open>The final summary\<close>

text \<open>
  C1, on the concrete bucket with one worker. Under the schedule \<open>early\<close> the enumerator
  closes the queue and signals completion, and \<open>main\<close> prints the summary and returns
  while worker 0 still holds object A and B and C are still queued: the summary reports
  3 discovered and 0 processed.
\<close>

theorem summary_before_workers_finish:
  "(case run (scenario 1 False removes) early of
      Inl err \<Rightarrow> False
    | Inr s \<Rightarrow>
        mainG s = MExit \<and>
        emitted s = [Log (TotalLine 3), Log (Summary 3 0 0 0)] \<and>
        fileChan s = [obj_B, obj_C] \<and> fileChanClosed s \<and>
        workerG s = [Running (worker_body (scenario 1 False removes) obj_A)])"
  by code_simp

text \<open>
  C7, on the same bucket and policy. With one worker and the schedule \<open>patient\<close> the
  summary reports 3 processed, 1 deleted, 10485760 bytes; with eight workers and the
  schedule \<open>early\<close> it reports 0, 0 and 0.
\<close>

theorem summary_depends_on_schedule:
  "(case run (scenario 1 False removes) patient of
      Inl err \<Rightarrow> False
    | Inr s \<Rightarrow> mainG s = MExit \<and> last (emitted s) = Log (Summary 3 3 1 10485760)) \<and>
   (case run (scenario 8 False removes) early of
      Inl err \<Rightarrow> False
    | Inr s \<Rightarrow> mainG s = MExit \<and> last (emitted s) = Log (Summary 3 0 0 0))"
  by code_simp

section \<open>Dry run\<close>



section \<open>The enumerator\<close>




section \<open>The deletion counters\<close>

text \<open>
  C8, as stated, fails twice. On the concrete bucket, after the step of worker 0 that adds
  object A to \<open>deletedFiles\<close> the counter is 1 while \<open>deletedSize\<close> is still 0: the two
  additions of lines 171 and 172 are separate. And with an object of size \<open>-5\<close> that passes
  the policy, the next step takes \<open>deletedSize\<close> from 0 to \<open>-5\<close>.
\<close>

theorem deleted_counters_counterexample:
  "(case run (scenario 1 False removes) (until_deleted @ [Worker 0]) of
      Inl err \<Rightarrow> False
    | Inr s \<Rightarrow>
        deletedFiles s = 1 \<and> deletedSize s = 0 \<and>
        workerG s = [Running [AddDeletedSize 10485760, AddProcessed]]) \<and>
   (case run negative_sizes until_counted of
      Inl err \<Rightarrow> False
    | Inr s \<Rightarrow> deletedFiles s = 1 \<and> deletedSize s = 0) \<and>
   (case run negative_sizes (until_counted @ [Worker 0]) of
      Inl err \<Rightarrow> False
    | Inr s \<Rightarrow> deletedFiles s = 1 \<and> deletedSize s = - 5 \<and> deletedSize s <s 0)"
  by code_simp

text \<open>
  C8, amended. The body adds to \<open>deletedFiles\<close> and to \<open>deletedSize\<close> only for an object
  whose removal succeeded, and then both, one right after the other, the second by the
  size of that object. A worker at the head of its loop that receives an object and runs
  its whole iteration adds 1 and the object's size when the object is deleted, and leaves
  both counters alone otherwise. In every state reached under any schedule, with
  \<open>handled\<close> the objects the workers have received so far: \<open>deletedFiles\<close> is the number of
  deleted objects among them and \<open>deletedSize\<close> the sum of their sizes, but for the
  additions the workers still hold pending; when every worker is between two iterations
  nothing is pending and the two equalities are exact. When the number of listed objects
  and the sum of their sizes (read unsigned) are below \<open>2 ^ 63\<close>, so that every size is
  non-negative and no sum leaves the range of \<open>int64\<close>, no step decreases either counter.
\<close>

theorem deleted_counters:
  assumes "run e sched = Inr s"
  shows "(\<forall>obj.
            (deletable e obj \<longrightarrow>
               worker_body e obj =
                 [Log (Candidate (Key obj) (Size obj) (LastModified obj)), Remove (Key obj),
                  Log (Deleted (Key obj)), AddDeleted, AddDeletedSize (Size obj), AddProcessed]) \<and>
            (\<not> deletable e obj \<longrightarrow>
               AddDeleted \<notin> set (worker_body e obj) \<and>
               (\<forall>n. AddDeletedSize n \<notin> set (worker_body e obj)))) \<and>
         (alive s0 \<and> i < length (workerG s0) \<and> workerG s0 ! i = Running [] \<and>
          fileChan s0 = obj # q \<longrightarrow>
            exec e (Worker i # replicate (length (worker_body e obj)) (Worker i)) s0 =
              s0\<lparr>fileChan := q,
                 emitted := emitted s0 @ filter visible (worker_body e obj),
                 processedFiles := processedFiles s0 + 1,
                 deletedFiles := deletedFiles s0 + (if deletable e obj then 1 else 0),
                 deletedSize := deletedSize s0 + (if deletable e obj then Size obj else 0)\<rparr>) \<and>
         (\<exists>handled.
            filter valid (listing2 e) = handled @ fileChan s @ sends (enumeratorG s) \<and>
            deletedFiles s + of_nat (inflight deleted_by s) =
              of_nat (length (filter (deletable e) handled)) \<and>
            deletedSize s + of_nat (inflight bytes_by s) =
              sum_list (map Size (filter (deletable e) handled)) \<and>
            ((\<forall>w \<in> set (workerG s). pend w = []) \<longrightarrow>
               deletedFiles s = of_nat (length (filter (deletable e) handled)) \<and>
               deletedSize s = sum_list (map Size (filter (deletable e) handled)))) \<and>
         (length (listing2 e) < 2 ^ 63 \<and>
          sum_list (map (\<lambda>obj. unat (Size obj)) (listing2 e)) < 2 ^ 63 \<longrightarrow>
            (\<forall>t s'. step e t s = Some s' \<longrightarrow>
               deletedFiles s \<le>s deletedFiles s' \<and> deletedSize s \<le>s deletedSize s'))"
proof -
  have r: "reachable e s" using assms run_reachable by blast
  from accounting [OF r] obtain handled where
    h: "filter valid (listing2 e) = handled @ fileChan s @ sends (enumeratorG s)"
      "settled deleted_by e s + inflight deleted_by s = length (filter (deletable e) handled)"
      "settled bytes_by e s + inflight bytes_by s =
         sum_list (map (\<lambda>obj. unat (Size obj)) (filter (deletable e) handled))"
    by blast
  note c = counters_settled [OF r]
  have d: "deletedFiles s + of_nat (inflight deleted_by s) =
              of_nat (length (filter (deletable e) handled))"
    using c h(2) by (metis of_nat_add)
  have "deletedSize s + of_nat (inflight bytes_by s) =
      of_nat (sum_list (map (\<lambda>obj. unat (Size obj)) (filter (deletable e) handled)))"
    using c h(3) by (metis of_nat_add)
  then have b: "deletedSize s + of_nat (inflight bytes_by s) =
              sum_list (map Size (filter (deletable e) handled))"
    by (simp add: of_nat_sum_unat)
  have i: "inflight g s = 0" if "\<forall>w \<in> set (workerG s). pend w = []" for g
    using that by (simp add: inflight_def)
  have q: "(\<forall>w \<in> set (workerG s). pend w = []) \<longrightarrow>
               deletedFiles s = of_nat (length (filter (deletable e) handled)) \<and>
               deletedSize s = sum_list (map Size (filter (deletable e) handled))"
    using d b i [of deleted_by] i [of bytes_by] by auto
  have acc: "\<exists>handled.
            filter valid (listing2 e) = handled @ fileChan s @ sends (enumeratorG s) \<and>
            deletedFiles s + of_nat (inflight deleted_by s) =
              of_nat (length (filter (deletable e) handled)) \<and>
            deletedSize s + of_nat (inflight bytes_by s) =
              sum_list (map Size (filter (deletable e) handled)) \<and>
            ((\<forall>w \<in> set (workerG s). pend w = []) \<longrightarrow>
               deletedFiles s = of_nat (length (filter (deletable e) handled)) \<and>
               deletedSize s = sum_list (map Size (filter (deletable e) handled)))"
    using h(1) d b q by blast
  have iter: "alive s0 \<and> i < length (workerG s0) \<and> workerG s0 ! i = Running [] \<and>
          fileChan s0 = obj # q \<longrightarrow>
            exec e (Worker i # replicate (length (worker_body e obj)) (Worker i)) s0 =
              s0\<lparr>fileChan := q,
                 emitted := emitted s0 @ filter visible (worker_body e obj),
                 processedFiles := processedFiles s0 + 1,
                 deletedFiles := deletedFiles s0 + (if deletable e obj then 1 else 0),
                 deletedSize := deletedSize s0 + (if deletable e obj then Size obj else 0)\<rparr>"
    using worker_iteration [of s0 i obj q e] by blast
  show ?thesis using acc iter worker_body_deletable [of e] counters_monotone [OF r] by blast
qed

theorem deleted_counters_witness:
  "run (scenario 1 False removes) until_deleted =
     Inr (exec (scenario 1 False removes) until_deleted (init (scenario 1 False removes))) \<and>
   deletedFiles (exec (scenario 1 False removes) until_deleted (init (scenario 1 False removes)))
     \<le>s deletedFiles (exec (scenario 1 False removes) (until_deleted @ [Worker 0])
           (init (scenario 1 False removes))) \<and>
   exec (scenario 1 False removes)
     (Worker 0 # replicate (length (worker_body (scenario 1 False removes) obj_A)) (Worker 0))
     ((init (scenario 1 False removes))\<lparr>fileChan := [obj_A, obj_B]\<rparr>) =
   (init (scenario 1 False removes))
     \<lparr>fileChan := [obj_B],
      emitted := [Log (Candidate ''A'' 10485760 (- 10)), Remove ''A'', Log (Deleted ''A'')],
      processedFiles := 1, deletedFiles := 1, deletedSize := 10485760\<rparr>"
proof -
  have b: "length (listing2 (scenario 1 False removes)) < 2 ^ 63 \<and>
      sum_list (map (\<lambda>obj. unat (Size obj)) (listing2 (scenario 1 False removes))) < 2 ^ 63"
    by (simp add: scenario_def obj_A_def obj_B_def obj_C_def)
  have r: "run (scenario 1 False removes) until_deleted =
     Inr (exec (scenario 1 False removes) until_deleted (init (scenario 1 False removes)))"
    by (simp add: run_def word_sless_alt scenario_def)
  have d: "deletable (scenario 1 False removes) obj_A"
    by (simp add: deletable_def eligible_def After_def scenario_def obj_A_def removes_def
        word_sless_alt)
  have body: "worker_body (scenario 1 False removes) obj_A =
      [Log (Candidate ''A'' 10485760 (- 10)), Remove ''A'', Log (Deleted ''A''), AddDeleted,
       AddDeletedSize 10485760, AddProcessed]"
    using deleted_counters [OF r] d by (simp add: obj_A_def)
  have pre: "alive ((init (scenario 1 False removes))\<lparr>fileChan := [obj_A, obj_B]\<rparr>) \<and>
      0 < length (workerG ((init (scenario 1 False removes))\<lparr>fileChan := [obj_A, obj_B]\<rparr>)) \<and>
      workerG ((init (scenario 1 False removes))\<lparr>fileChan := [obj_A, obj_B]\<rparr>) ! 0 = Running [] \<and>
      fileChan ((init (scenario 1 False removes))\<lparr>fileChan := [obj_A, obj_B]\<rparr>) = obj_A # [obj_B]"
    by (simp add: init_def alive_def scenario_def)
  have it: "exec (scenario 1 False removes)
     (Worker 0 # replicate (length (worker_body (scenario 1 False removes) obj_A)) (Worker 0))
     ((init (scenario 1 False removes))\<lparr>fileChan := [obj_A, obj_B]\<rparr>) =
   (init (scenario 1 False removes))
     \<lparr>fileChan := [obj_B],
      emitted := [Log (Candidate ''A'' 10485760 (- 10)), Remove ''A'', Log (Deleted ''A'')],
      processedFiles := 1, deletedFiles := 1, deletedSize := 10485760\<rparr>"
    using deleted_counters [OF r, of "(init (scenario 1 False removes))\<lparr>fileChan := [obj_A, obj_B]\<rparr>"
        0 obj_A "[obj_B]"] pre d
    by (simp add: body) (simp add: init_def obj_A_def)
  show ?thesis
    using deleted_counters [OF r] b until_deleted_step r it by blast
qed

section \<open>No workers\<close>

text \<open>
  C9. Let pass 2 yield at least one valid object. With \<open>Workers = 0\<close> there is no worker
  and the queue has capacity 0; under every schedule the queue stays empty and open, the
  enumerator still has an object to send and cannot move once that send is its next
  action, \<open>doneChan\<close> is never signalled, \<open>main\<close> is still waiting and no summary has been
  written. Hence a run that reaches the end of \<open>main\<close> has \<open>Workers \<noteq> 0\<close>, and
  \<open>Workers \<ge> 1\<close> unless the count is so negative that its double wraps around (a negative
  capacity panics when the channel is made). Conversely, with at least one worker (and
  a count whose double does not wrap) there is a schedule under which \<open>main\<close> returns.
\<close>

theorem no_workers_no_summary:
  assumes "\<exists>obj \<in> set (listing2 e). valid obj"
  shows "(Workers (cfg e) = 0 \<longrightarrow>
           (\<exists>s. run e sched = Inr s \<and> workerG s = [] \<and> capacity e = 0 \<and>
              fileChan s = [] \<and> \<not> fileChanClosed s \<and> sends (enumeratorG s) \<noteq> [] \<and>
              (\<forall>obj rest. enumeratorG s = Send obj # rest \<longrightarrow> step e Enumerator s = None) \<and>
              \<not> doneChan s \<and> mainG s = MWait \<and>
              (\<forall>t p d z. Log (Summary t p d z) \<notin> set (emitted s)))) \<and>
         (\<forall>s. run e sched = Inr s \<and> mainG s = MExit \<longrightarrow>
            Workers (cfg e) \<noteq> 0 \<and>
            (- (2 ^ 62) \<le> sint (Workers (cfg e)) \<longrightarrow> 1 \<le> sint (Workers (cfg e)))) \<and>
         (1 \<le> sint (Workers (cfg e)) \<and> sint (Workers (cfg e)) < 2 ^ 62 \<longrightarrow>
            (\<exists>s. run e (complete_schedule e) = Inr s \<and> mainG s = MExit))"
proof -
  have zero: "workerG s = [] \<and> capacity e = 0 \<and>
              fileChan s = [] \<and> \<not> fileChanClosed s \<and> sends (enumeratorG s) \<noteq> [] \<and>
              (\<forall>obj rest. enumeratorG s = Send obj # rest \<longrightarrow> step e Enumerator s = None) \<and>
              \<not> doneChan s \<and> mainG s = MWait \<and>
              (\<forall>t p d z. Log (Summary t p d z) \<notin> set (emitted s))"
    if w: "Workers (cfg e) = 0" and r: "reachable e s" for s
  proof -
    note b = blocked_without_workers [OF w assms r]
    have inv: "enumerator_inv e s" using reachable_inv [OF r] by simp
    have "Close \<in> set (enumeratorG s)" using inv b well_sends_Close
      by (auto simp: enumerator_inv_def)
    then have nd: "\<not> doneChan s" "\<not> fileChanClosed s"
      using inv well_Close_SignalDone by (auto simp: enumerator_inv_def)
    have cap: "capacity e = 0" using w by (simp add: capacity_def)
    have "step e Enumerator s = None" if "enumeratorG s = Send obj # rest" for obj rest
      using that b nd cap by (simp add: step_def step_enumerator_def)
    then show ?thesis using b nd cap by blast
  qed
  have one: "Workers (cfg e) = 0 \<longrightarrow> (\<exists>s. run e sched = Inr s \<and> reachable e s)"
    by (simp add: run_def word_sless_alt reachable_exec)
  have two: "Workers (cfg e) \<noteq> 0 \<and>
      (- (2 ^ 62) \<le> sint (Workers (cfg e)) \<longrightarrow> 1 \<le> sint (Workers (cfg e)))"
    if "run e sched = Inr s" and "mainG s = MExit" for s
  proof -
    have r: "reachable e s" using that(1) run_reachable by blast
    have nz: "Workers (cfg e) \<noteq> 0" using zero [OF _ r] that(2) by auto
    then have "sint (Workers (cfg e)) \<noteq> 0" by (metis signed_eq_0_iff)
    moreover have "\<not> (- (2 ^ 62) \<le> sint (Workers (cfg e)) \<and> sint (Workers (cfg e)) < 0)"
      using negative_workers_panic [of e sched] that(1) by auto
    ultimately show ?thesis using nz by auto
  qed
  have three: "1 \<le> sint (Workers (cfg e)) \<and> sint (Workers (cfg e)) < 2 ^ 62 \<longrightarrow>
            (\<exists>s. run e (complete_schedule e) = Inr s \<and> mainG s = MExit)"
    using can_complete [of e] by blast
  show ?thesis using one two zero three by blast
qed

theorem no_workers_no_summary_witness:
  "(\<exists>obj \<in> set (listing2 (scenario 0 False removes)). valid obj) \<and>
   Workers (cfg (scenario 0 False removes)) = 0 \<and>
   (\<exists>s. run (scenario 0 False removes) early = Inr s \<and> fileChan s = [] \<and>
      sends (enumeratorG s) \<noteq> [] \<and> mainG s = MWait) \<and>
   (\<exists>s. run (scenario 1 False removes) (complete_schedule (scenario 1 False removes)) = Inr s \<and>
      mainG s = MExit)"
proof -
  have v: "\<exists>obj \<in> set (listing2 (scenario n False removes)). valid obj" for n
    by (simp add: scenario_def valid_def obj_A_def)
  have w: "Workers (cfg (scenario 0 False removes)) = 0" by (simp add: scenario_def)
  have o: "1 \<le> sint (Workers (cfg (scenario 1 False removes))) \<and>
      sint (Workers (cfg (scenario 1 False removes))) < 2 ^ 62"
    by (simp add: scenario_def)
  show ?thesis
    using no_workers_no_summary [OF v, of 0 early] no_workers_no_summary [OF v, of 1 early] v w o
    by blast
qed

section \<open>Nothing to count\<close>

text \<open>
  C10. When pass 1 yields no valid object, then under every schedule \<open>totalFiles\<close> is 0,
  the reporter has not left its loop and no progress line has been written; while the
  process lives the reporter can always take its next step, and it stops only because
  nothing runs after \<open>main\<close> has returned.
\<close>

theorem no_valid_objects:
  assumes "filter valid (listing1 e) = []" and "run e sched = Inr s"
  shows "totalFiles s = 0 \<and> reporterG s \<noteq> RExit \<and>
         (\<forall>p t d z. Log (Progress p t d z) \<notin> set (emitted s)) \<and>
         (alive s \<longrightarrow> step e Reporter s \<noteq> None) \<and>
         (mainG s = MExit \<longrightarrow> step e Reporter s = None)"
proof -
  have r: "reachable e s" using assms(2) run_reachable by blast
  have z: "sees_zero (reporterG s)" using reporter_zero [OF assms(1) r] by simp
  then have ne: "reporterG s \<noteq> RExit" by auto
  then have "alive s \<longrightarrow> step e Reporter s \<noteq> None"
    by (simp add: step_def step_reporter_def split: reporter_pc.splits)
  moreover have "mainG s = MExit \<longrightarrow> step e Reporter s = None"
    by (simp add: step_def alive_def)
  ultimately show ?thesis using total_zero [OF assms(1) r] reporter_zero [OF assms(1) r] ne by simp
qed

theorem no_valid_objects_witness:
  "filter valid (listing1 empty_bucket) = [] \<and>
   run empty_bucket idle_run = Inr (exec empty_bucket idle_run (init empty_bucket)) \<and>
   totalFiles (exec empty_bucket idle_run (init empty_bucket)) = 0 \<and>
   reporterG (exec empty_bucket idle_run (init empty_bucket)) \<noteq> RExit"
proof -
  have v: "filter valid (listing1 empty_bucket) = []"
    by (simp add: empty_bucket_def valid_def obj_E_def)
  have r: "run empty_bucket idle_run = Inr (exec empty_bucket idle_run (init empty_bucket))"
    by (simp add: run_def word_sless_alt empty_bucket_def scenario_def)
  show ?thesis using no_valid_objects [OF v r] v r by blast
qed

end
